theory Spec2Isabelle
  imports Complex_Main "HOL-Library.Multiset"
begin

section \<open>The resilience layer of GPT-OS Enterprise (gpt\_shell\_enterprise.py)\<close>

text \<open>
  The development models the classes \<^verbatim>\<open>Config\<close>, \<^verbatim>\<open>Metrics\<close>, \<^verbatim>\<open>CircuitBreaker\<close>,
  \<^verbatim>\<open>LRUCache\<close>, \<^verbatim>\<open>TokenBucket\<close>, \<^verbatim>\<open>LLMService\<close> and \<^verbatim>\<open>TaskQueue\<close>.
  All components of one shell share one \<^verbatim>\<open>Config\<close> object and one \<^verbatim>\<open>Metrics\<close>
  object, so the model keeps them in one record \<open>system\<close> and every method takes the
  system and returns the updated one. Python's \<^verbatim>\<open>int\<close> is \<open>int\<close>. A Python
  \<^verbatim>\<open>float\<close> is a double; its value is a real number, and the result of an arithmetic
  operation on floats is the one the machine computes, rounding included: the operations
  are part of the environment below, and \<open>double_round\<close> further down gives them for
  concrete runs. An \<^verbatim>\<open>int\<close> that meets a float in the token bucket (the burst size, the
  requests per minute, the literals) is taken to be in the range of a double. A
  difference of \<^verbatim>\<open>datetime\<close> values counts microseconds exactly, and \<^verbatim>\<open>total_seconds()\<close>
  is taken to be that number of seconds. Calls of the logger only write to the log stream
  and are left out. One invocation is modelled on its own, without other coroutines
  interleaving.
\<close>

subsection \<open>What the program reads from outside\<close>

datatype exn =
    ApiError
  | TimeoutError
  | TypeError
  | KeyError
  | JSONDecodeError
  | RecursionError
  | ValueError
  | OverflowError

datatype json =
    JNull
  | JBool bool
  | JNum real
  | JStr string
  | JList "json list"
  | JDict "(string \<times> json) list"

text \<open>Python's truth value of a parsed JSON value (\<^verbatim>\<open>if result:\<close>).\<close>

fun truthy :: "json \<Rightarrow> bool" where
  "truthy JNull = False"
| "truthy (JBool b) = b"
| "truthy (JNum x) = (x \<noteq> 0)"
| "truthy (JStr s) = (s \<noteq> [])"
| "truthy (JList xs) = (xs \<noteq> [])"
| "truthy (JDict kvs) = (kvs \<noteq> [])"

text \<open>The truth value of an \<^verbatim>\<open>Optional\<close> result: \<^verbatim>\<open>None\<close> is false.\<close>

fun truthy_opt :: "json option \<Rightarrow> bool" where
  "truthy_opt None = False"
| "truthy_opt (Some v) = truthy v"

text \<open>
  The answer of the remote provider to one \<^verbatim>\<open>chat.completions.create\<close> call under
  \<^verbatim>\<open>asyncio.wait_for\<close>: an exception, or the message content (which may be \<^verbatim>\<open>None\<close>).
\<close>

datatype reply = Raises exn | Content "string option"

text \<open>
  The environment of a run: the value of the n-th reading of the clock
  (\<^verbatim>\<open>time.time()\<close>, \<^verbatim>\<open>datetime.now()\<close>), the provider's answer to the n-th call given the
  model name, the n-th draw of \<^verbatim>\<open>random.random()\<close>, the arithmetic of floats
  (\<^verbatim>\<open>+\<close>, \<^verbatim>\<open>-\<close>, \<^verbatim>\<open>*\<close>, \<^verbatim>\<open>/\<close> on two floats, and the conversion of an \<^verbatim>\<open>int\<close> to a float,
  which is \<open>None\<close> when Python raises \<^verbatim>\<open>OverflowError\<close>), and the library functions
  \<^verbatim>\<open>json.loads\<close> (the value, or the exception it raises: \<^verbatim>\<open>JSONDecodeError\<close> on text
  that is no JSON, \<^verbatim>\<open>RecursionError\<close> on text nested too deeply, \<^verbatim>\<open>ValueError\<close> on a
  number with too many digits), \<^verbatim>\<open>json.dumps\<close> with sorted keys, and
  \<^verbatim>\<open>hashlib.md5(...).hexdigest()\<close>.
\<close>

record env =
  clock :: "nat \<Rightarrow> real"
  provider :: "nat \<Rightarrow> string \<Rightarrow> reply"
  random01 :: "nat \<Rightarrow> real"
  float_add :: "real \<Rightarrow> real \<Rightarrow> real"
  float_sub :: "real \<Rightarrow> real \<Rightarrow> real"
  float_mul :: "real \<Rightarrow> real \<Rightarrow> real"
  float_div :: "real \<Rightarrow> real \<Rightarrow> real"
  float_of_int :: "int \<Rightarrow> real option"
  json_loads :: "string \<Rightarrow> exn + json"
  json_dumps :: "(string \<times> json) list \<Rightarrow> string"
  md5_hex :: "string \<Rightarrow> string"

text \<open>
  How far the run has consumed its environment: the number of clock readings, the model
  names of the provider calls made (oldest first), the number of random draws, and the
  delays passed to \<^verbatim>\<open>asyncio.sleep\<close> (oldest first).
\<close>

record world =
  reads :: nat
  calls :: "string list"
  draws :: nat
  sleeps :: "real list"

subsection \<open>Config\<close>

record Config =
  llm_model :: string
  fallback_models :: "string list"
  circuit_breaker_enabled :: bool
  circuit_breaker_failure_threshold :: int
  circuit_breaker_recovery_timeout :: int
  circuit_breaker_success_threshold :: int
  retry_max_attempts :: int
  retry_base_delay :: real
  retry_max_delay :: real
  retry_exponential_base :: int
  retry_jitter :: bool
  cache_enabled :: bool
  cache_max_size :: int
  cache_ttl :: int
  rate_limit_enabled :: bool
  rate_limit_requests_per_minute :: int
  rate_limit_burst_size :: int
  task_queue_max_size :: int

text \<open>The defaults of the dataclass.\<close>

definition default_config :: Config where
  "default_config = \<lparr>
     llm_model = ''gpt-4.1-mini'',
     fallback_models = [''gpt-4.1-nano'', ''gemini-2.5-flash''],
     circuit_breaker_enabled = True,
     circuit_breaker_failure_threshold = 5,
     circuit_breaker_recovery_timeout = 60,
     circuit_breaker_success_threshold = 2,
     retry_max_attempts = 3,
     retry_base_delay = 1,
     retry_max_delay = 10,
     retry_exponential_base = 2,
     retry_jitter = True,
     cache_enabled = True,
     cache_max_size = 1000,
     cache_ttl = 3600,
     rate_limit_enabled = True,
     rate_limit_requests_per_minute = 60,
     rate_limit_burst_size = 10,
     task_queue_max_size = 100 \<rparr>"

subsection \<open>Metrics\<close>

definition MAX_HISTOGRAM_SIZE :: nat where
  "MAX_HISTOGRAM_SIZE = 1000"

record Metrics =
  counters :: "string \<rightharpoonup> int"
  gauges :: "string \<rightharpoonup> real"
  histograms :: "string \<rightharpoonup> real list"

definition new_metrics :: Metrics where
  "new_metrics = \<lparr> counters = Map.empty, gauges = Map.empty, histograms = Map.empty \<rparr>"

text \<open>\<^verbatim>\<open>self.counters.get(name, 0)\<close>\<close>

definition counter :: "Metrics \<Rightarrow> string \<Rightarrow> int" where
  "counter m name = (case counters m name of None \<Rightarrow> 0 | Some c \<Rightarrow> c)"

definition increment :: "string \<Rightarrow> int \<Rightarrow> Metrics \<Rightarrow> Metrics" where
  "increment name v m = m\<lparr> counters := (counters m)(name \<mapsto> counter m name + v) \<rparr>"

definition set_gauge :: "string \<Rightarrow> real \<Rightarrow> Metrics \<Rightarrow> Metrics" where
  "set_gauge name v m = m\<lparr> gauges := (gauges m)(name \<mapsto> v) \<rparr>"

text \<open>\<^verbatim>\<open>xs[-MAX_HISTOGRAM_SIZE:]\<close>: the last \<open>MAX_HISTOGRAM_SIZE\<close> observations.\<close>

definition observe :: "string \<Rightarrow> real \<Rightarrow> Metrics \<Rightarrow> Metrics" where
  "observe name v m =
     (let old = (case histograms m name of None \<Rightarrow> [] | Some xs \<Rightarrow> xs);
          xs = old @ [v];
          xs' = (if length xs > MAX_HISTOGRAM_SIZE
                 then drop (length xs - MAX_HISTOGRAM_SIZE) xs else xs)
      in m\<lparr> histograms := (histograms m)(name \<mapsto> xs') \<rparr>)"

subsection \<open>The state of the components\<close>

datatype CircuitState = CLOSED | OPEN | HALF_OPEN

record CircuitBreaker =
  state :: CircuitState
  failure_count :: int
  success_count :: int
  last_failure_time :: "real option"
  last_state_change :: real

record CacheEntry =
  entry_value :: json
  timestamp :: real
  ttl :: int

text \<open>
  The \<^verbatim>\<open>OrderedDict\<close> of the cache is an association list with distinct keys, in the
  order of the dictionary: a key stands where it was first inserted unless \<^verbatim>\<open>get\<close> has
  moved it to the end. The token bucket holds its own copy of the rate, computed once in
  the constructor.
\<close>

record TokenBucket =
  tokens :: real
  last_update :: real
  rate :: real

text \<open>
  A background task; its callable and arguments are opaque and left out. The queue holds
  pairs \<^verbatim>\<open>(priority, task)\<close> in the list that \<^verbatim>\<open>heapq\<close> maintains.
\<close>

record Task =
  task_id :: string
  priority :: int
  created_at :: real

record system =
  config :: Config
  metrics :: Metrics
  circuit_breaker :: CircuitBreaker
  cache :: "(string \<times> CacheEntry) list"
  rate_limiter :: TokenBucket
  task_queue :: "(int \<times> Task) list"
  outside :: world

text \<open>One reading of the clock; one draw of \<^verbatim>\<open>random.random()\<close>.\<close>

definition now :: "env \<Rightarrow> system \<Rightarrow> real \<times> system" where
  "now e s =
     (clock e (reads (outside s)),
      s\<lparr> outside := (outside s)\<lparr> reads := Suc (reads (outside s)) \<rparr> \<rparr>)"

definition random_draw :: "env \<Rightarrow> system \<Rightarrow> real \<times> system" where
  "random_draw e s =
     (random01 e (draws (outside s)),
      s\<lparr> outside := (outside s)\<lparr> draws := Suc (draws (outside s)) \<rparr> \<rparr>)"

text \<open>\<^verbatim>\<open>await asyncio.sleep(delay)\<close>\<close>

definition sleep :: "real \<Rightarrow> system \<Rightarrow> system" where
  "sleep d s = s\<lparr> outside := (outside s)\<lparr> sleeps := sleeps (outside s) @ [d] \<rparr> \<rparr>"

subsection \<open>CircuitBreaker\<close>

definition transition_to_open :: "env \<Rightarrow> system \<Rightarrow> system" where
  "transition_to_open e s =
     (let s1 = s\<lparr> circuit_breaker := (circuit_breaker s)\<lparr> state := OPEN \<rparr> \<rparr>;
          (t, s2) = now e s1;
          s3 = s2\<lparr> circuit_breaker := (circuit_breaker s2)\<lparr> last_state_change := t \<rparr> \<rparr>
      in s3\<lparr> metrics := set_gauge ''circuit_breaker_state'' 1 (metrics s3) \<rparr>)"

definition transition_to_half_open :: "env \<Rightarrow> system \<Rightarrow> system" where
  "transition_to_half_open e s =
     (let s1 = s\<lparr> circuit_breaker :=
                   (circuit_breaker s)\<lparr> state := HALF_OPEN, success_count := 0 \<rparr> \<rparr>;
          (t, s2) = now e s1;
          s3 = s2\<lparr> circuit_breaker := (circuit_breaker s2)\<lparr> last_state_change := t \<rparr> \<rparr>
      in s3\<lparr> metrics := set_gauge ''circuit_breaker_state'' (1 / 2) (metrics s3) \<rparr>)"

definition transition_to_closed :: "env \<Rightarrow> system \<Rightarrow> system" where
  "transition_to_closed e s =
     (let s1 = s\<lparr> circuit_breaker :=
                   (circuit_breaker s)\<lparr> state := CLOSED, failure_count := 0,
                                         success_count := 0 \<rparr> \<rparr>;
          (t, s2) = now e s1;
          s3 = s2\<lparr> circuit_breaker := (circuit_breaker s2)\<lparr> last_state_change := t \<rparr> \<rparr>
      in s3\<lparr> metrics := set_gauge ''circuit_breaker_state'' 0 (metrics s3) \<rparr>)"

text \<open>
  \<^verbatim>\<open>if self.last_failure_time:\<close> tests for \<^verbatim>\<open>None\<close> (a \<^verbatim>\<open>datetime\<close> is always true).
\<close>

definition should_allow_request :: "env \<Rightarrow> system \<Rightarrow> bool \<times> system" where
  "should_allow_request e s =
     (if \<not> circuit_breaker_enabled (config s) then (True, s)
      else if state (circuit_breaker s) = CLOSED then (True, s)
      else if state (circuit_breaker s) = OPEN then
        (case last_failure_time (circuit_breaker s) of
           Some lft \<Rightarrow>
             (let (t, s1) = now e s;
                  elapsed = t - lft
              in if elapsed \<ge> real_of_int (circuit_breaker_recovery_timeout (config s1))
                 then (True, transition_to_half_open e s1)
                 else (False, s1))
         | None \<Rightarrow> (False, s))
      else if state (circuit_breaker s) = HALF_OPEN then (True, s)
      else (False, s))"

definition record_success :: "env \<Rightarrow> system \<Rightarrow> system" where
  "record_success e s =
     (if state (circuit_breaker s) = HALF_OPEN then
        (let s1 = s\<lparr> circuit_breaker := (circuit_breaker s)
                      \<lparr> success_count := success_count (circuit_breaker s) + 1 \<rparr> \<rparr>
         in if success_count (circuit_breaker s1)
                 \<ge> circuit_breaker_success_threshold (config s1)
            then transition_to_closed e s1 else s1)
      else if state (circuit_breaker s) = CLOSED then
        s\<lparr> circuit_breaker := (circuit_breaker s)\<lparr> failure_count := 0 \<rparr> \<rparr>
      else s)"

definition record_failure :: "env \<Rightarrow> system \<Rightarrow> system" where
  "record_failure e s =
     (let (t, s0) = now e s;
          s1 = s0\<lparr> circuit_breaker := (circuit_breaker s0)\<lparr> last_failure_time := Some t \<rparr> \<rparr>
      in if state (circuit_breaker s1) = HALF_OPEN then transition_to_open e s1
         else if state (circuit_breaker s1) = CLOSED then
           (let s2 = s1\<lparr> circuit_breaker := (circuit_breaker s1)
                         \<lparr> failure_count := failure_count (circuit_breaker s1) + 1 \<rparr> \<rparr>
            in if failure_count (circuit_breaker s2)
                    \<ge> circuit_breaker_failure_threshold (config s2)
               then transition_to_open e s2 else s2)
         else s1)"

subsection \<open>LRUCache\<close>

definition is_expired :: "env \<Rightarrow> CacheEntry \<Rightarrow> system \<Rightarrow> bool \<times> system" where
  "is_expired e entry s =
     (let (t, s1) = now e s;
          elapsed = t - timestamp entry
      in (elapsed \<ge> real_of_int (ttl entry), s1))"

text \<open>\<^verbatim>\<open>del d[key]\<close> and \<^verbatim>\<open>d.move_to_end(key)\<close> for a key that is present.\<close>

definition del_key :: "string \<Rightarrow> (string \<times> 'v) list \<Rightarrow> (string \<times> 'v) list" where
  "del_key key d = filter (\<lambda>kv. fst kv \<noteq> key) d"

definition move_to_end :: "string \<Rightarrow> (string \<times> 'v) list \<Rightarrow> (string \<times> 'v) list" where
  "move_to_end key d =
     (case map_of d key of None \<Rightarrow> d | Some v \<Rightarrow> del_key key d @ [(key, v)])"

text \<open>
  \<^verbatim>\<open>d[key] = v\<close> on an \<^verbatim>\<open>OrderedDict\<close>: a present key keeps its position and gets the new
  value, a new key goes to the end.
\<close>

fun assign :: "string \<Rightarrow> 'v \<Rightarrow> (string \<times> 'v) list \<Rightarrow> (string \<times> 'v) list" where
  "assign key v [] = [(key, v)]"
| "assign key v ((k, w) # d) = (if k = key then (k, v) # d else (k, w) # assign key v d)"

definition cache_get :: "env \<Rightarrow> string \<Rightarrow> system \<Rightarrow> json option \<times> system" where
  "cache_get e key s =
     (if \<not> cache_enabled (config s) then (None, s)
      else case map_of (cache s) key of
        None \<Rightarrow> (None, s\<lparr> metrics := increment ''cache_miss'' 1 (metrics s) \<rparr>)
      | Some entry \<Rightarrow>
          (let (expired, s1) = is_expired e entry s
           in if expired then
                (None, s1\<lparr> cache := del_key key (cache s1),
                            metrics := increment ''cache_expired'' 1 (metrics s1) \<rparr>)
              else
                (Some (entry_value entry),
                 s1\<lparr> cache := move_to_end key (cache s1),
                     metrics := increment ''cache_hit'' 1 (metrics s1) \<rparr>)))"

text \<open>
  \<^verbatim>\<open>popitem(last=False)\<close> removes the first entry and raises \<^verbatim>\<open>KeyError\<close> on an empty
  dictionary. The result is the exception, if one is raised, and the system at that point.
\<close>

definition cache_set ::
  "env \<Rightarrow> string \<Rightarrow> json \<Rightarrow> int option \<Rightarrow> system \<Rightarrow> exn option \<times> system" where
  "cache_set e key v ttl_arg s =
     (if \<not> cache_enabled (config s) then (None, s)
      else
        let ttl' = (case ttl_arg of None \<Rightarrow> cache_ttl (config s) | Some t \<Rightarrow> t);
            evicted =
              (if int (length (cache s)) \<ge> cache_max_size (config s) then
                 (case cache s of
                    [] \<Rightarrow> Inl KeyError
                  | _ # rest \<Rightarrow>
                      Inr (s\<lparr> cache := rest,
                              metrics := increment ''cache_eviction'' 1 (metrics s) \<rparr>))
               else Inr s)
        in case evicted of
             Inl x \<Rightarrow> (Some x, s)
           | Inr s1 \<Rightarrow>
               (let (t, s2) = now e s1;
                    s3 = s2\<lparr> cache := assign key
                            \<lparr> entry_value = v, timestamp = t, ttl = ttl' \<rparr> (cache s2) \<rparr>
                in (None, s3\<lparr> metrics := set_gauge ''cache_size''
                                (real (length (cache s3))) (metrics s3) \<rparr>)))"

text \<open>A run of \<^verbatim>\<open>set\<close> calls with the default TTL, one per key and value, in order.\<close>

fun set_each :: "env \<Rightarrow> (string \<times> json) list \<Rightarrow> system \<Rightarrow> exn option \<times> system" where
  "set_each e [] s = (None, s)"
| "set_each e ((k, v) # kvs) s =
     (case cache_set e k v None s of
        (Some x, s') \<Rightarrow> (Some x, s')
      | (None, s') \<Rightarrow> set_each e kvs s')"

text \<open>The keys of the cache with the values stored under them, in the order of the dictionary.\<close>

definition stored :: "(string \<times> CacheEntry) list \<Rightarrow> (string \<times> json) list" where
  "stored d = map (\<lambda>(key, entry). (key, entry_value entry)) d"

subsection \<open>TokenBucket\<close>

text \<open>
  The constructor, given the reading of \<^verbatim>\<open>time.time()\<close>. The rate is the float
  \<^verbatim>\<open>rate_limit_requests_per_minute / 60.0\<close>.
\<close>

definition new_token_bucket :: "env \<Rightarrow> Config \<Rightarrow> real \<Rightarrow> TokenBucket" where
  "new_token_bucket e cfg t =
     \<lparr> tokens = real_of_int (rate_limit_burst_size cfg),
       last_update = t,
       rate = float_div e (real_of_int (rate_limit_requests_per_minute cfg)) 60 \<rparr>"

text \<open>
  \<^verbatim>\<open>allow_request\<close>: the elapsed time, the refill and the decrement are computed in
  floats; \<^verbatim>\<open>min\<close> and \<^verbatim>\<open>>=\<close> compare the values exactly.
\<close>

definition allow_request :: "env \<Rightarrow> system \<Rightarrow> bool \<times> system" where
  "allow_request e s =
     (if \<not> rate_limit_enabled (config s) then (True, s)
      else
        let (t, s1) = now e s;
            b = rate_limiter s1;
            elapsed = float_sub e t (last_update b);
            b1 = b\<lparr> tokens := min (real_of_int (rate_limit_burst_size (config s1)))
                                  (float_add e (tokens b) (float_mul e elapsed (rate b))) \<rparr>;
            b2 = b1\<lparr> last_update := t \<rparr>
        in if tokens b2 \<ge> 1
           then (True, s1\<lparr> rate_limiter := b2\<lparr> tokens := float_sub e (tokens b2) 1 \<rparr> \<rparr>)
           else (False, s1\<lparr> rate_limiter := b2 \<rparr>))"

text \<open>\<open>n\<close> calls one after the other: the answers in order, and the system after them.\<close>

fun allow_requests :: "env \<Rightarrow> nat \<Rightarrow> system \<Rightarrow> bool list \<times> system" where
  "allow_requests e 0 s = ([], s)"
| "allow_requests e (Suc n) s =
     (let (a, s1) = allow_request e s;
          (as, s2) = allow_requests e n s1
      in (a # as, s2))"

subsection \<open>LLMService\<close>

text \<open>
  \<^verbatim>\<open>re.search(r'\{.*\}', response, re.DOTALL)\<close>: the leftmost match starts at the first
  opening brace and, the star being greedy and the dot matching every character, ends at
  the last closing brace after it; there is no match without such a pair.
\<close>

definition search_braces :: "string \<Rightarrow> string option" where
  "search_braces response =
     (let from_open = dropWhile (\<lambda>c. c \<noteq> CHR ''{'') response;
          matched = rev (dropWhile (\<lambda>c. c \<noteq> CHR ''}'') (rev from_open))
      in if matched = [] then None else Some matched)"

text \<open>
  \<^verbatim>\<open>_parse_llm_response\<close> catches \<^verbatim>\<open>JSONDecodeError\<close> only: any other exception of
  \<^verbatim>\<open>json.loads\<close> leaves the function.
\<close>

definition parse_llm_response :: "env \<Rightarrow> string \<Rightarrow> exn + json option" where
  "parse_llm_response e response =
     (case search_braces response of
        None \<Rightarrow> Inr None
      | Some matched \<Rightarrow>
          (case json_loads e matched of
             Inr v \<Rightarrow> Inr (Some v)
           | Inl x \<Rightarrow> if x = JSONDecodeError then Inr None else Inl x))"

text \<open>
  One call of the provider with the model named in the configuration at that moment. The
  call is logged in \<open>calls\<close>. A content of \<^verbatim>\<open>None\<close> makes \<^verbatim>\<open>re.search\<close> raise
  \<^verbatim>\<open>TypeError\<close>, which \<^verbatim>\<open>_parse_llm_response\<close> does not catch. The prompt text built
  from the user input and the context is not represented: the environment answers by the
  number of the call and the model name.
\<close>

definition call_llm :: "env \<Rightarrow> system \<Rightarrow> (exn + json option) \<times> system" where
  "call_llm e s =
     (let m = llm_model (config s);
          n = length (calls (outside s));
          s1 = s\<lparr> outside := (outside s)\<lparr> calls := calls (outside s) @ [m] \<rparr> \<rparr>
      in case provider e n m of
           Raises x \<Rightarrow> (Inl x, s1)
         | Content None \<Rightarrow> (Inl TypeError, s1)
         | Content (Some txt) \<Rightarrow> (parse_llm_response e txt, s1))"

text \<open>
  What \<^verbatim>\<open>_call_llm\<close> makes of the provider's answer to call number \<open>n\<close> with model
  \<open>m\<close>: it raises when the provider raises, sends no content, or sends a text on which
  the parser raises; it succeeds for the fallback loop when the content parses to a
  result that Python counts as true.
\<close>

definition invocation_raises :: "env \<Rightarrow> nat \<Rightarrow> string \<Rightarrow> bool" where
  "invocation_raises e n m =
     (case provider e n m of
        Raises x \<Rightarrow> True
      | Content None \<Rightarrow> True
      | Content (Some txt) \<Rightarrow> isl (parse_llm_response e txt))"

definition invocation_succeeds :: "env \<Rightarrow> nat \<Rightarrow> string \<Rightarrow> bool" where
  "invocation_succeeds e n m =
     (case provider e n m of
        Raises x \<Rightarrow> False
      | Content None \<Rightarrow> False
      | Content (Some txt) \<Rightarrow>
          (case parse_llm_response e txt of Inl x \<Rightarrow> False | Inr r \<Rightarrow> truthy_opt r))"

text \<open>\<^verbatim>\<open>random.uniform(a, b)\<close> is \<^verbatim>\<open>a + (b - a) * random()\<close>, in floats.\<close>

definition uniform :: "env \<Rightarrow> real \<Rightarrow> real \<Rightarrow> system \<Rightarrow> real \<times> system" where
  "uniform e a b s =
     (let (u, s1) = random_draw e s
      in (float_add e a (float_mul e (float_sub e b a) u), s1))"

text \<open>The value of the float literal \<^verbatim>\<open>0.1\<close>: the double nearest to one tenth.\<close>

definition float_tenth :: real where
  "float_tenth = 3602879701896397 / 36028797018963968"

text \<open>
  The delay before the next attempt: exponential in the attempt number, capped, and with
  jitter, when configured, a uniform draw from zero to a tenth of the delay on top. The
  power \<^verbatim>\<open>retry_exponential_base ** attempt\<close> is an \<^verbatim>\<open>int\<close>; multiplying the float
  \<^verbatim>\<open>retry_base_delay\<close> by it converts it to a float first, which raises
  \<^verbatim>\<open>OverflowError\<close> when it is too large.
\<close>

definition backoff_delay :: "env \<Rightarrow> nat \<Rightarrow> system \<Rightarrow> (exn + real) \<times> system" where
  "backoff_delay e attempt s =
     (case float_of_int e (retry_exponential_base (config s) ^ attempt) of
        None \<Rightarrow> (Inl OverflowError, s)
      | Some factor \<Rightarrow>
          (let delay = min (retry_max_delay (config s))
                         (float_mul e (retry_base_delay (config s)) factor)
           in if retry_jitter (config s)
              then (let (j, s') = uniform e 0 (float_mul e delay float_tenth) s
                    in (Inr (float_add e delay j), s'))
              else (Inr delay, s)))"

text \<open>
  The loop of \<^verbatim>\<open>_call_llm_with_retry_wrapper\<close> from attempt number \<open>attempt\<close> with
  \<open>left\<close> attempts of \<^verbatim>\<open>range(retry_max_attempts)\<close> to go. A call that returns, with a
  result or with \<^verbatim>\<open>None\<close>, ends the loop. An exception raised while the delay is
  computed, inside the \<^verbatim>\<open>except\<close> block, leaves the wrapper. After the loop
  \<^verbatim>\<open>raise last_exception\<close> raises it, or \<^verbatim>\<open>TypeError\<close> when it is still \<^verbatim>\<open>None\<close>.
\<close>

fun retry_loop ::
  "env \<Rightarrow> nat \<Rightarrow> nat \<Rightarrow> exn option \<Rightarrow> system \<Rightarrow> (exn + json option) \<times> system" where
  "retry_loop e attempt 0 last_exception s =
     (case last_exception of None \<Rightarrow> (Inl TypeError, s) | Some x \<Rightarrow> (Inl x, s))"
| "retry_loop e attempt (Suc left) last_exception s =
     (case call_llm e s of
        (Inr result, s1) \<Rightarrow>
          (Inr result,
           if attempt > 0
           then s1\<lparr> metrics := increment ''retry_success'' 1 (metrics s1) \<rparr> else s1)
      | (Inl x, s1) \<Rightarrow>
          (if int attempt < retry_max_attempts (config s1) - 1 then
             (case backoff_delay e attempt s1 of
                (Inl y, s2) \<Rightarrow> (Inl y, s2)
              | (Inr delay, s2) \<Rightarrow>
                  (let s3 = s2\<lparr> metrics := increment ''retry_attempt'' 1 (metrics s2) \<rparr>
                   in retry_loop e (Suc attempt) left (Some x) (sleep delay s3)))
           else
             retry_loop e (Suc attempt) left (Some x)
               (s1\<lparr> metrics := increment ''retry_exhausted'' 1 (metrics s1) \<rparr>)))"

definition call_llm_with_retry_wrapper ::
  "env \<Rightarrow> system \<Rightarrow> (exn + json option) \<times> system" where
  "call_llm_with_retry_wrapper e s =
     retry_loop e 0 (nat (retry_max_attempts (config s))) None s"

definition degraded_result :: json where
  "degraded_result = JDict
     [(''command'', JStr []),
      (''explanation'', JStr ''Service temporarily unavailable. Please try again.''),
      (''warning'', JStr ''All LLM services are currently unavailable.''),
      (''safe'', JBool False)]"

text \<open>
  The loop of \<^verbatim>\<open>_fallback_translation\<close> over the fallback models still to try. An
  exception of the call is caught and the loop goes on; the assignment that restores
  \<^verbatim>\<open>llm_model\<close> is then not reached.
\<close>

fun fallback_loop :: "env \<Rightarrow> string list \<Rightarrow> system \<Rightarrow> json option \<times> system" where
  "fallback_loop e [] s = (Some degraded_result, s)"
| "fallback_loop e (fallback_model # rest) s =
     (let original_model = llm_model (config s);
          s1 = s\<lparr> config := (config s)\<lparr> llm_model := fallback_model \<rparr> \<rparr>
      in case call_llm e s1 of
           (Inl x, s2) \<Rightarrow> fallback_loop e rest s2
         | (Inr result, s2) \<Rightarrow>
             (let s3 = s2\<lparr> config := (config s2)\<lparr> llm_model := original_model \<rparr> \<rparr>
              in if truthy_opt result then (result, s3)
                 else fallback_loop e rest s3))"

definition fallback_translation :: "env \<Rightarrow> system \<Rightarrow> json option \<times> system" where
  "fallback_translation e s =
     fallback_loop e (fallback_models (config s))
       (s\<lparr> metrics := increment ''fallback_used'' 1 (metrics s) \<rparr>)"

definition generate_cache_key :: "env \<Rightarrow> string \<Rightarrow> string \<Rightarrow> string" where
  "generate_cache_key e user_input context = md5_hex e (user_input @ '':'' @ context)"

text \<open>
  The body of the \<^verbatim>\<open>try\<close> block of \<^verbatim>\<open>translate_command\<close>; \<open>Inl\<close> is an exception
  that reaches the \<^verbatim>\<open>except\<close> clause.
\<close>

definition translate_body ::
  "env \<Rightarrow> real \<Rightarrow> string \<Rightarrow> (string \<times> json) list \<Rightarrow> system
     \<Rightarrow> (exn + json option) \<times> system" where
  "translate_body e start_time user_input context s =
     (let (allowed, s1) = allow_request e s
      in if \<not> allowed then (Inr None, s1)
         else
           let context_str = json_dumps e context;
               cache_key = generate_cache_key e user_input context_str;
               (cached_result, s2) = cache_get e cache_key s1
           in if truthy_opt cached_result then
                (let (t, s3) = now e s2;
                     latency = float_mul e (float_sub e t start_time) 1000
                 in (Inr cached_result,
                     s3\<lparr> metrics := observe ''translation_latency_ms'' latency (metrics s3) \<rparr>))
              else
                let (admitted, s3) = should_allow_request e s2
                in if \<not> admitted then
                     (let (r, s4) = fallback_translation e s3 in (Inr r, s4))
                   else
                     case call_llm_with_retry_wrapper e s3 of
                       (Inl x, s4) \<Rightarrow> (Inl x, s4)
                     | (Inr result, s4) \<Rightarrow>
                         (case (if truthy_opt result
                                then (case cache_set e cache_key (the result) None s4 of
                                        (Some x, s') \<Rightarrow> (Some x, s')
                                      | (None, s') \<Rightarrow> (None, record_success e s'))
                                else (None, record_failure e s4)) of
                            (Some x, s5) \<Rightarrow> (Inl x, s5)
                          | (None, s5) \<Rightarrow>
                              (let (t, s6) = now e s5;
                                   latency = float_mul e (float_sub e t start_time) 1000;
                                   m1 = observe ''translation_latency_ms'' latency (metrics s6);
                                   m2 = increment ''translations_total'' 1 m1
                               in (Inr result, s6\<lparr> metrics := m2 \<rparr>))))"

definition translate_command ::
  "env \<Rightarrow> string \<Rightarrow> (string \<times> json) list \<Rightarrow> system \<Rightarrow> (exn + json option) \<times> system" where
  "translate_command e user_input context s =
     (let (start_time, s0) = now e s
      in case translate_body e start_time user_input context s0 of
           (Inr r, s1) \<Rightarrow> (Inr r, s1)
         | (Inl x, s1) \<Rightarrow>
             (let s2 = record_failure e s1;
                  s3 = s2\<lparr> metrics := increment ''translation_errors'' 1 (metrics s2) \<rparr>;
                  (r, s4) = fallback_translation e s3
              in (Inr r, s4)))"

subsection \<open>TaskQueue\<close>

text \<open>
  The queue is an \<^verbatim>\<open>asyncio.PriorityQueue\<close>: its \<^verbatim>\<open>_put\<close> is \<^verbatim>\<open>heapq.heappush\<close> and its
  \<^verbatim>\<open>_get\<close> is \<^verbatim>\<open>heapq.heappop\<close> on a Python list of the pairs \<^verbatim>\<open>(priority, task)\<close>.
  The functions below follow \<^verbatim>\<open>Lib/heapq.py\<close> of CPython, which is not part of the
  repository. \<^verbatim>\<open>heapq\<close> compares items with \<^verbatim>\<open><\<close> only. On tuples, \<^verbatim>\<open><\<close> looks for the first
  position where the two differ under \<^verbatim>\<open>==\<close> and compares there: the priorities if they
  differ, else the tasks with \<^verbatim>\<open>Task.__lt__\<close> unless the tasks are equal as dataclasses.
\<close>

definition task_lt :: "Task \<Rightarrow> Task \<Rightarrow> bool" where
  "task_lt a b = (priority a < priority b)"

definition tuple_lt :: "int \<times> Task \<Rightarrow> int \<times> Task \<Rightarrow> bool" where
  "tuple_lt x y =
     (if fst x \<noteq> fst y then fst x < fst y
      else if snd x \<noteq> snd y then task_lt (snd x) (snd y)
      else False)"

text \<open>
  \<^verbatim>\<open>_siftdown(heap, startpos, pos)\<close>, for \<open>pos\<close> within the list: the loop with the item
  being placed, then the function.
\<close>

function siftdown_loop ::
  "(int \<times> Task) list \<Rightarrow> nat \<Rightarrow> nat \<Rightarrow> int \<times> Task \<Rightarrow> (int \<times> Task) list" where
  "siftdown_loop heap startpos pos newitem =
     (if pos > startpos then
        (let parentpos = (pos - 1) div 2;
             parent = heap ! parentpos
         in if tuple_lt newitem parent
            then siftdown_loop (heap[pos := parent]) startpos parentpos newitem
            else heap[pos := newitem])
      else heap[pos := newitem])"
  by pat_completeness auto
termination
  by (relation "measure (\<lambda>(heap, startpos, pos, newitem). pos)") auto

definition siftdown :: "(int \<times> Task) list \<Rightarrow> nat \<Rightarrow> nat \<Rightarrow> (int \<times> Task) list" where
  "siftdown heap startpos pos = siftdown_loop heap startpos pos (heap ! pos)"

text \<open>
  \<^verbatim>\<open>_siftup(heap, pos)\<close>: the loop moves the smaller child up until a leaf is reached and
  gives the list and the leaf position; the item is put there and sifted down.
\<close>

function siftup_loop ::
  "(int \<times> Task) list \<Rightarrow> nat \<Rightarrow> nat \<Rightarrow> (int \<times> Task) list \<times> nat" where
  "siftup_loop heap endpos pos =
     (let childpos = 2 * pos + 1
      in if childpos < endpos then
           (let rightpos = childpos + 1;
                childpos' = (if rightpos < endpos
                                  \<and> \<not> tuple_lt (heap ! childpos) (heap ! rightpos)
                             then rightpos else childpos)
            in siftup_loop (heap[pos := heap ! childpos']) endpos childpos')
         else (heap, pos))"
  by pat_completeness auto
termination
  by (relation "measure (\<lambda>(heap, endpos, pos). endpos - pos)") auto

definition siftup :: "(int \<times> Task) list \<Rightarrow> nat \<Rightarrow> (int \<times> Task) list" where
  "siftup heap pos =
     (let endpos = length heap;
          startpos = pos;
          newitem = heap ! pos;
          (heap1, pos1) = siftup_loop heap endpos pos
      in siftdown (heap1[pos1 := newitem]) startpos pos1)"

definition heappush :: "(int \<times> Task) list \<Rightarrow> int \<times> Task \<Rightarrow> (int \<times> Task) list" where
  "heappush heap item = (let heap1 = heap @ [item] in siftdown heap1 0 (length heap1 - 1))"

text \<open>\<^verbatim>\<open>heappop\<close>; \<open>None\<close> stands for the \<^verbatim>\<open>IndexError\<close> of \<^verbatim>\<open>pop\<close> on an empty list.\<close>

definition heappop ::
  "(int \<times> Task) list \<Rightarrow> ((int \<times> Task) \<times> (int \<times> Task) list) option" where
  "heappop heap =
     (if heap = [] then None
      else
        let lastelt = last heap;
            heap1 = butlast heap
        in if heap1 \<noteq> [] then
             (let returnitem = heap1 ! 0;
                  heap2 = heap1[0 := lastelt]
              in Some (returnitem, siftup heap2 0))
           else Some (lastelt, heap1))"

text \<open>\<^verbatim>\<open>Queue.full()\<close>: a \<^verbatim>\<open>maxsize\<close> of zero or less means no bound.\<close>

definition queue_full :: "system \<Rightarrow> bool" where
  "queue_full s =
     (if task_queue_max_size (config s) \<le> 0 then False
      else int (length (task_queue s)) \<ge> task_queue_max_size (config s))"

text \<open>
  \<^verbatim>\<open>enqueue\<close>, run without a worker taking an item during the wait: on a full queue
  \<^verbatim>\<open>put\<close> blocks, \<^verbatim>\<open>wait_for\<close> raises \<^verbatim>\<open>TimeoutError\<close> after one second and the
  exception is raised again. The task identifier is the first eight characters of the
  MD5 digest of a clock reading and a random draw, written one after the other;
  \<open>float_str\<close> stands for Python's formatting of a float.
\<close>

definition enqueue ::
  "env \<Rightarrow> (real \<Rightarrow> string) \<Rightarrow> int \<Rightarrow> system \<Rightarrow> (exn + string) \<times> system" where
  "enqueue e float_str prio s =
     (let (t, s1) = now e s;
          (r, s2) = random_draw e s1;
          tid = take 8 (md5_hex e (float_str t @ float_str r));
          (c, s3) = now e s2;
          task = \<lparr> task_id = tid, priority = prio, created_at = c \<rparr>
      in if queue_full s3 then
           (Inl TimeoutError,
            s3\<lparr> metrics := increment ''tasks_rejected'' 1 (metrics s3) \<rparr>)
         else
           (let s4 = s3\<lparr> task_queue := heappush (task_queue s3) (prio, task) \<rparr>;
                m1 = increment ''tasks_enqueued'' 1 (metrics s4);
                m2 = set_gauge ''queue_size'' (real (length (task_queue s4))) m1
            in (Inr tid, s4\<lparr> metrics := m2 \<rparr>)))"

text \<open>
  What a worker takes with \<^verbatim>\<open>self.queue.get()\<close>: nothing from an empty queue (the wait
  times out and the worker polls again), else the item \<^verbatim>\<open>heappop\<close> returns.
\<close>

definition dequeue :: "system \<Rightarrow> Task option \<times> system" where
  "dequeue s =
     (case heappop (task_queue s) of
        None \<Rightarrow> (None, s)
      | Some ((prio, task), rest) \<Rightarrow>
          (let s1 = s\<lparr> task_queue := rest \<rparr>
           in (Some task,
               s1\<lparr> metrics := set_gauge ''queue_size''
                                (real (length (task_queue s1))) (metrics s1) \<rparr>)))"

text \<open>Runs: one \<^verbatim>\<open>enqueue\<close> per priority in order; \<open>n\<close> takes by a worker in order.\<close>

fun enqueue_each :: "env \<Rightarrow> (real \<Rightarrow> string) \<Rightarrow> int list \<Rightarrow> system \<Rightarrow> system" where
  "enqueue_each e float_str [] s = s"
| "enqueue_each e float_str (p # ps) s =
     enqueue_each e float_str ps (snd (enqueue e float_str p s))"

fun dequeue_n :: "nat \<Rightarrow> system \<Rightarrow> Task option list \<times> system" where
  "dequeue_n 0 s = ([], s)"
| "dequeue_n (Suc n) s =
     (let (t, s1) = dequeue s;
          (ts, s2) = dequeue_n n s1
      in (t # ts, s2))"

text \<open>
  The order \<^verbatim>\<open>heapq\<close> keeps: \<open>heap_le x y\<close> says that \<open>y\<close> is not less than \<open>x\<close>. A list
  is a heap when no item is less than its parent, the parent of position \<open>i\<close> being
  position \<open>(i - 1) div 2\<close>. While an item is being sifted there is a hole at one
  position: \<open>hole_heap h p\<close> says that the heap order holds between all other positions,
  and across the hole between its parent and its children.
\<close>

definition heap_le :: "int \<times> Task \<Rightarrow> int \<times> Task \<Rightarrow> bool" where
  "heap_le x y = (\<not> tuple_lt y x)"

definition is_heap :: "(int \<times> Task) list \<Rightarrow> bool" where
  "is_heap h = (\<forall>i<length h. 0 < i \<longrightarrow> heap_le (h ! ((i - 1) div 2)) (h ! i))"

definition hole_heap :: "(int \<times> Task) list \<Rightarrow> nat \<Rightarrow> bool" where
  "hole_heap h p =
     ((\<forall>i<length h. 0 < i \<and> i \<noteq> p \<and> (i - 1) div 2 \<noteq> p \<longrightarrow>
          heap_le (h ! ((i - 1) div 2)) (h ! i))
      \<and> (\<forall>i<length h. 0 < i \<and> (i - 1) div 2 = p \<and> 0 < p \<longrightarrow>
          heap_le (h ! ((p - 1) div 2)) (h ! i)))"

text \<open>
  What holds of the queue between operations: it is a heap, and every pair carries the
  priority of its task, as \<^verbatim>\<open>enqueue\<close> builds it.
\<close>

definition queue_ok :: "(int \<times> Task) list \<Rightarrow> bool" where
  "queue_ok q = (is_heap q \<and> (\<forall>(p, t) \<in> set q. p = priority t))"

subsection \<open>Construction, and environments for concrete runs\<close>

text \<open>
  The state after \<^verbatim>\<open>EnterpriseGPTShell.__init__\<close>: the constructors of the breaker, the
  token bucket and the memory manager read the clock once each, in this order.
\<close>

definition new_system :: "env \<Rightarrow> Config \<Rightarrow> system" where
  "new_system e cfg =
     \<lparr> config = cfg,
       metrics = new_metrics,
       circuit_breaker =
         \<lparr> state = CLOSED, failure_count = 0, success_count = 0,
           last_failure_time = None, last_state_change = clock e 0 \<rparr>,
       cache = [],
       rate_limiter = new_token_bucket e cfg (clock e 1),
       task_queue = [],
       outside = \<lparr> reads = 3, calls = [], draws = 0, sleeps = [] \<rparr> \<rparr>"

text \<open>
  The arithmetic of doubles for concrete runs: the exact result rounded to the nearest
  number with a significand of 53 bits, ties to the even significand, with the fixed
  spacing of the subnormal numbers below \<open>2 ^ - 1022\<close>. \<open>binary_exponent n x\<close> is the
  \<open>k\<close> with \<open>2 ^ k \<le> x < 2 ^ (k + 1)\<close>, searched for in at most \<open>n\<close> steps, which is
  enough for every product and quotient of two doubles. Infinities are not represented:
  a result beyond the largest double is kept as a number. The conversion of an \<^verbatim>\<open>int\<close>
  raises \<^verbatim>\<open>OverflowError\<close> from \<open>2 ^ 1024 - 2 ^ 970\<close> on, where rounding would leave the
  range of doubles.
\<close>

fun binary_exponent :: "nat \<Rightarrow> real \<Rightarrow> int" where
  "binary_exponent 0 x = 0"
| "binary_exponent (Suc n) x =
     (if 2 \<le> x then binary_exponent n (x / 2) + 1
      else if x < 1 then binary_exponent n (x * 2) - 1
      else 0)"

definition round_half_even :: "real \<Rightarrow> int" where
  "round_half_even x =
     (let f = \<lfloor>x\<rfloor>; d = x - real_of_int f
      in if d < 1 / 2 then f else if 1 / 2 < d then f + 1
         else if even f then f else f + 1)"

definition pow2 :: "int \<Rightarrow> real" where
  "pow2 k = (if 0 \<le> k then 2 ^ nat k else 1 / 2 ^ nat (- k))"

definition double_round :: "real \<Rightarrow> real" where
  "double_round x =
     (if x = 0 then 0
      else
        let ex = max (binary_exponent 2200 \<bar>x\<bar>) (- 1022);
            ulp = pow2 (ex - 52)
        in sgn x * real_of_int (round_half_even (\<bar>x\<bar> / ulp)) * ulp)"

definition double_of_int :: "int \<Rightarrow> real option" where
  "double_of_int n =
     (if 2 ^ 1024 - 2 ^ 970 \<le> \<bar>n\<bar> then None else Some (double_round (real_of_int n)))"

text \<open>
  An environment in which the clock stands still at 0, every provider call raises, floats
  are doubles, and the library functions are trivial; and one whose provider answers
  every call with a sentence that holds no JSON object.
\<close>

definition still_env :: env where
  "still_env =
     \<lparr> clock = (\<lambda>n. 0),
       provider = (\<lambda>n m. Raises ApiError),
       random01 = (\<lambda>n. 0),
       float_add = (\<lambda>x y. double_round (x + y)),
       float_sub = (\<lambda>x y. double_round (x - y)),
       float_mul = (\<lambda>x y. double_round (x * y)),
       float_div = (\<lambda>x y. double_round (x / y)),
       float_of_int = double_of_int,
       json_loads = (\<lambda>txt. Inl JSONDecodeError),
       json_dumps = (\<lambda>c. []),
       md5_hex = (\<lambda>txt. txt) \<rparr>"

definition prose_env :: env where
  "prose_env = still_env\<lparr> provider := (\<lambda>n m. Content (Some ''Sorry, I cannot help.'')) \<rparr>"

text \<open>A clock that shows 0 for its first eight readings and 1 afterwards.\<close>

definition step_env :: env where
  "step_env = still_env\<lparr> clock := (\<lambda>n. if n < 8 then 0 else 1) \<rparr>"

text \<open>A clock that advances by one second with every reading.\<close>

definition ticking_env :: env where
  "ticking_env = still_env\<lparr> clock := (\<lambda>n. real n) \<rparr>"

text \<open>The settings of the repository's tests for the breaker, the cache and the limiter.\<close>

definition test_breaker_config :: Config where
  "test_breaker_config = default_config
     \<lparr> circuit_breaker_failure_threshold := 3, circuit_breaker_recovery_timeout := 1 \<rparr>"

definition test_cache_config :: Config where
  "test_cache_config = default_config\<lparr> cache_max_size := 3, cache_ttl := 1 \<rparr>"

definition test_limiter_config :: Config where
  "test_limiter_config = default_config
     \<lparr> rate_limit_requests_per_minute := 60, rate_limit_burst_size := 3 \<rparr>"

text \<open>The state after three \<^verbatim>\<open>set\<close> calls on the cache of a new system.\<close>

definition three_entry_system :: system where
  "three_entry_system =
     snd (set_each step_env [(''a'', JStr ''1''), (''b'', JStr ''2''), (''c'', JStr ''3'')]
            (new_system step_env test_cache_config))"

text \<open>
  A limiter of 17 requests per minute with a burst of three, and a clock that shows 0 for
  its first eight readings and afterwards the float \<^verbatim>\<open>1 / rate\<close> for that limiter's rate
  \<^verbatim>\<open>17 / 60.0\<close>.
\<close>

definition slow_limiter_config :: Config where
  "slow_limiter_config = default_config
     \<lparr> rate_limit_requests_per_minute := 17, rate_limit_burst_size := 3 \<rparr>"

definition waiting_env :: env where
  "waiting_env = still_env
     \<lparr> clock := (\<lambda>n. if n < 8 then 0 else double_round (1 / double_round (17 / 60))) \<rparr>"

text \<open>An environment whose provider raises on the first call and answers prose afterwards.\<close>

definition flaky_env :: env where
  "flaky_env = still_env
     \<lparr> provider := (\<lambda>n m. if n = 0 then Raises TimeoutError
                          else Content (Some ''Sorry, I cannot help.'')) \<rparr>"

text \<open>
  A reply that holds a JSON object, and what \<^verbatim>\<open>json.loads\<close> makes of it. In
  \<open>primary_only_env\<close> the provider gives this reply for the model \<^verbatim>\<open>gpt-4.1-mini\<close> and
  raises for every other model; in \<open>nano_only_env\<close> it does so for \<^verbatim>\<open>gpt-4.1-nano\<close>.
\<close>

definition ls_reply :: string where
  "ls_reply = ''{'' @ [CHR 0x22] @ ''command'' @ [CHR 0x22] @ '': ''
                @ [CHR 0x22] @ ''ls'' @ [CHR 0x22] @ ''}''"

definition ls_result :: json where
  "ls_result = JDict [(''command'', JStr ''ls'')]"

definition primary_only_env :: env where
  "primary_only_env = still_env
     \<lparr> provider := (\<lambda>n m. if m = ''gpt-4.1-mini'' then Content (Some ls_reply)
                          else Raises ApiError),
       json_loads := (\<lambda>txt. if txt = ls_reply then Inr ls_result else Inl JSONDecodeError) \<rparr>"

definition nano_only_env :: env where
  "nano_only_env = still_env
     \<lparr> provider := (\<lambda>n m. if m = ''gpt-4.1-nano'' then Content (Some ls_reply)
                          else Raises ApiError),
       json_loads := (\<lambda>txt. if txt = ls_reply then Inr ls_result else Inl JSONDecodeError) \<rparr>"

text \<open>A system whose breaker five failures in a row have opened.\<close>

definition open_breaker_system :: system where
  "open_breaker_system =
     (record_failure primary_only_env ^^ 5) (new_system primary_only_env default_config)"

text \<open>A configuration whose exponential base is beyond the range of a double.\<close>

definition huge_base_config :: Config where
  "huge_base_config = default_config\<lparr> retry_exponential_base := 2 ^ 1024 \<rparr>"

text \<open>A new system whose token bucket holds a single token.\<close>

definition single_token_system :: system where
  "single_token_system = new_system still_env (default_config\<lparr> rate_limit_burst_size := 1 \<rparr>)"

text \<open>A stand-in for the formatting of floats that gives every float the same text.\<close>

definition flat_float_str :: "real \<Rightarrow> string" where
  "flat_float_str x = ''t''"

section \<open>Properties\<close>

subsection \<open>Evaluating the arithmetic of doubles\<close>

lemma binary_exponent_numeral:
  "binary_exponent (numeral k) x =
     (if 2 \<le> x then binary_exponent (pred_numeral k) (x / 2) + 1
      else if x < 1 then binary_exponent (pred_numeral k) (x * 2) - 1
      else 0)"
  by (simp add: numeral_eq_Suc)

lemmas double_defs =
  double_round_def double_of_int_def binary_exponent_numeral round_half_even_def pow2_def
  Let_def

lemma double_round_small:
  "double_round 0 = 0" "double_round 1 = 1" "double_round 2 = 2" "double_round 3 = 3"
  "double_round 10 = 10" "double_round 1000 = 1000"
  by (simp_all add: double_defs)

lemma double_round_tenth:
  "double_round float_tenth = float_tenth"
  "double_round (float_tenth * 2) = float_tenth * 2"
  by (simp_all add: float_tenth_def double_defs)

lemma double_of_int_small:
  "double_of_int 0 = Some 0" "double_of_int 1 = Some 1" "double_of_int 2 = Some 2"
  "double_of_int 4 = Some 4"
  by (simp_all add: double_defs)

lemma still_env_floats:
  "float_add still_env x y = double_round (x + y)"
  "float_sub still_env x y = double_round (x - y)"
  "float_mul still_env x y = double_round (x * y)"
  "float_div still_env x y = double_round (x / y)"
  "float_of_int still_env = double_of_int"
  by (simp_all add: still_env_def)

subsection \<open>CircuitBreaker\<close>

lemmas breaker_defs =
  record_failure_def record_success_def should_allow_request_def
  transition_to_open_def transition_to_half_open_def transition_to_closed_def
  now_def set_gauge_def

text \<open>
  Claim C2 as stated fails: the transition to OPEN does not zero the counters. From the
  state after construction with the default threshold of five, the fifth
  \<^verbatim>\<open>record_failure\<close> opens the breaker and leaves \<open>failure_count\<close> at five.
\<close>

theorem C2_counters_not_zeroed:
  "state (circuit_breaker (new_system still_env default_config)) = CLOSED
   \<and> state (circuit_breaker
        ((record_failure still_env ^^ 5) (new_system still_env default_config))) = OPEN
   \<and> failure_count (circuit_breaker
        ((record_failure still_env ^^ 5) (new_system still_env default_config))) = 5"
  by (simp add: eval_nat_numeral breaker_defs Let_def new_system_def default_config_def
      still_env_def)

text \<open>
  Claim C2, amended: in state CLOSED every \<^verbatim>\<open>record_failure\<close> adds one to
  \<open>failure_count\<close>, leaves \<open>success_count\<close> as it is and stores the clock reading as
  \<open>last_failure_time\<close>. When the incremented count has reached the failure threshold,
  the state becomes OPEN, \<open>last_state_change\<close> is the next clock reading and the gauge
  is set to 1; the counters are not reset by this transition. Below the threshold the
  state stays CLOSED and \<open>last_state_change\<close> is unchanged.
\<close>

theorem C2_record_failure_closed:
  assumes "state (circuit_breaker s) = CLOSED"
  shows "failure_count (circuit_breaker (record_failure e s))
           = failure_count (circuit_breaker s) + 1
    \<and> success_count (circuit_breaker (record_failure e s))
           = success_count (circuit_breaker s)
    \<and> last_failure_time (circuit_breaker (record_failure e s))
           = Some (clock e (reads (outside s)))
    \<and> (if failure_count (circuit_breaker s) + 1
            \<ge> circuit_breaker_failure_threshold (config s)
        then state (circuit_breaker (record_failure e s)) = OPEN
           \<and> last_state_change (circuit_breaker (record_failure e s))
               = clock e (Suc (reads (outside s)))
           \<and> gauges (metrics (record_failure e s)) ''circuit_breaker_state'' = Some 1
        else state (circuit_breaker (record_failure e s)) = CLOSED
           \<and> last_state_change (circuit_breaker (record_failure e s))
               = last_state_change (circuit_breaker s))"
  using assms by (simp add: breaker_defs Let_def)

theorem C2_record_failure_closed_witness:
  "failure_count (circuit_breaker
        (record_failure ticking_env (new_system ticking_env default_config))) = 1
   \<and> last_failure_time (circuit_breaker
        (record_failure ticking_env (new_system ticking_env default_config))) = Some 3
   \<and> state (circuit_breaker
        (record_failure ticking_env (new_system ticking_env default_config))) = CLOSED
   \<and> state (circuit_breaker
        (record_failure ticking_env
           ((record_failure ticking_env ^^ 4) (new_system ticking_env default_config))))
       = OPEN
   \<and> failure_count (circuit_breaker
        (record_failure ticking_env
           ((record_failure ticking_env ^^ 4) (new_system ticking_env default_config))))
       = 5
   \<and> last_state_change (circuit_breaker
        (record_failure ticking_env
           ((record_failure ticking_env ^^ 4) (new_system ticking_env default_config))))
       = 8"
proof -
  let ?s0 = "new_system ticking_env default_config"
  let ?s4 = "(record_failure ticking_env ^^ 4) ?s0"
  have s0: "state (circuit_breaker ?s0) = CLOSED" "failure_count (circuit_breaker ?s0) = 0"
    "reads (outside ?s0) = 3" "circuit_breaker_failure_threshold (config ?s0) = 5"
    by (simp_all add: new_system_def default_config_def)
  have s4: "state (circuit_breaker ?s4) = CLOSED" "failure_count (circuit_breaker ?s4) = 4"
    "reads (outside ?s4) = 7" "circuit_breaker_failure_threshold (config ?s4) = 5"
    by (simp_all add: eval_nat_numeral breaker_defs Let_def new_system_def default_config_def
        ticking_env_def still_env_def)
  have clock: "clock ticking_env n = real n" for n
    by (simp add: ticking_env_def)
  from C2_record_failure_closed [OF s0(1), of ticking_env]
  have A: "failure_count (circuit_breaker (record_failure ticking_env ?s0)) = 1
      \<and> last_failure_time (circuit_breaker (record_failure ticking_env ?s0)) = Some 3
      \<and> state (circuit_breaker (record_failure ticking_env ?s0)) = CLOSED"
    by (simp add: s0 clock)
  from C2_record_failure_closed [OF s4(1), of ticking_env]
  have B: "state (circuit_breaker (record_failure ticking_env ?s4)) = OPEN
      \<and> failure_count (circuit_breaker (record_failure ticking_env ?s4)) = 5
      \<and> last_state_change (circuit_breaker (record_failure ticking_env ?s4)) = 8"
    by (simp add: s4 clock)
  from A B show ?thesis by blast
qed

text \<open>
  Claim C4 as stated fails for a breaker that is switched off in the configuration:
  \<^verbatim>\<open>should_allow_request\<close> then answers true before looking at the state. With
  \<^verbatim>\<open>circuit_breaker_enabled = False\<close>, five failures open the breaker; no time has
  passed since the last failure, and the request is admitted with the state still OPEN.
\<close>

theorem C4_disabled_breaker_admits:
  "let s = (record_failure still_env ^^ 5)
             (new_system still_env (default_config\<lparr> circuit_breaker_enabled := False \<rparr>))
   in state (circuit_breaker s) = OPEN
    \<and> last_failure_time (circuit_breaker s) = Some 0
    \<and> clock still_env (reads (outside s)) - 0
        < real_of_int (circuit_breaker_recovery_timeout (config s))
    \<and> fst (should_allow_request still_env s) = True
    \<and> state (circuit_breaker (snd (should_allow_request still_env s))) = OPEN"
  by (simp add: eval_nat_numeral breaker_defs Let_def new_system_def default_config_def
      still_env_def)

text \<open>
  Claim C4, amended: for an enabled breaker in state OPEN whose \<open>last_failure_time\<close> is
  set, \<^verbatim>\<open>should_allow_request\<close> reads the clock; while the time since the last failure
  is below the recovery timeout it answers false and leaves the breaker as it is; once
  that time has reached the timeout it answers true and the breaker is HALF\_OPEN with
  \<open>success_count\<close> zero and \<open>last_state_change\<close> the next clock reading. For a breaker
  that is not enabled the check answers true at once and changes nothing, whatever the
  state of the breaker.
\<close>

theorem C4_open_breaker_check:
  "(circuit_breaker_enabled (config s) \<and> state (circuit_breaker s) = OPEN
      \<and> last_failure_time (circuit_breaker s) = Some lft \<longrightarrow>
        (clock e (reads (outside s)) - lft
            < real_of_int (circuit_breaker_recovery_timeout (config s)) \<longrightarrow>
           fst (should_allow_request e s) = False
         \<and> circuit_breaker (snd (should_allow_request e s)) = circuit_breaker s)
      \<and> (clock e (reads (outside s)) - lft
            \<ge> real_of_int (circuit_breaker_recovery_timeout (config s)) \<longrightarrow>
           fst (should_allow_request e s) = True
         \<and> state (circuit_breaker (snd (should_allow_request e s))) = HALF_OPEN
         \<and> success_count (circuit_breaker (snd (should_allow_request e s))) = 0
         \<and> last_state_change (circuit_breaker (snd (should_allow_request e s)))
             = clock e (Suc (reads (outside s)))))
   \<and> (\<not> circuit_breaker_enabled (config s) \<longrightarrow> should_allow_request e s = (True, s))"
  by (simp add: breaker_defs Let_def)

theorem C4_open_breaker_check_witness:
  "fst (should_allow_request step_env
         ((record_failure step_env ^^ 3) (new_system step_env test_breaker_config))) = False
   \<and> fst (should_allow_request step_env
         (snd (should_allow_request step_env
            ((record_failure step_env ^^ 3) (new_system step_env test_breaker_config))))) = True
   \<and> state (circuit_breaker (snd (should_allow_request step_env
         (snd (should_allow_request step_env
            ((record_failure step_env ^^ 3) (new_system step_env test_breaker_config)))))))
       = HALF_OPEN
   \<and> should_allow_request step_env
        ((record_failure step_env ^^ 3)
           (new_system step_env (test_breaker_config\<lparr> circuit_breaker_enabled := False \<rparr>)))
       = (True, (record_failure step_env ^^ 3)
           (new_system step_env (test_breaker_config\<lparr> circuit_breaker_enabled := False \<rparr>)))
   \<and> state (circuit_breaker ((record_failure step_env ^^ 3)
           (new_system step_env (test_breaker_config\<lparr> circuit_breaker_enabled := False \<rparr>))))
       = OPEN"
proof -
  let ?s = "(record_failure step_env ^^ 3) (new_system step_env test_breaker_config)"
  let ?s' = "snd (should_allow_request step_env ?s)"
  let ?d = "(record_failure step_env ^^ 3)
      (new_system step_env (test_breaker_config\<lparr> circuit_breaker_enabled := False \<rparr>))"
  have s: "circuit_breaker_enabled (config ?s) \<and> state (circuit_breaker ?s) = OPEN
      \<and> last_failure_time (circuit_breaker ?s) = Some 0"
    "clock step_env (reads (outside ?s)) - 0
       < real_of_int (circuit_breaker_recovery_timeout (config ?s))"
    by (simp_all add: eval_nat_numeral breaker_defs Let_def new_system_def default_config_def
        test_breaker_config_def step_env_def still_env_def)
  have s': "circuit_breaker_enabled (config ?s') \<and> state (circuit_breaker ?s') = OPEN
      \<and> last_failure_time (circuit_breaker ?s') = Some 0"
    "clock step_env (reads (outside ?s')) - 0
       \<ge> real_of_int (circuit_breaker_recovery_timeout (config ?s'))"
    by (simp_all add: eval_nat_numeral breaker_defs Let_def new_system_def default_config_def
        test_breaker_config_def step_env_def still_env_def)
  have d: "\<not> circuit_breaker_enabled (config ?d)" "state (circuit_breaker ?d) = OPEN"
    by (simp_all add: eval_nat_numeral breaker_defs Let_def new_system_def default_config_def
        test_breaker_config_def step_env_def still_env_def)
  from C4_open_breaker_check [where s = "?s" and lft = 0 and e = step_env] s
  have A: "fst (should_allow_request step_env ?s) = False"
    by blast
  from C4_open_breaker_check [where s = "?s'" and lft = 0 and e = step_env] s'
  have B: "fst (should_allow_request step_env ?s') = True
      \<and> state (circuit_breaker (snd (should_allow_request step_env ?s'))) = HALF_OPEN"
    by blast
  from C4_open_breaker_check [where s = "?d" and lft = 0 and e = step_env] d(1)
  have C: "should_allow_request step_env ?d = (True, ?d)"
    by blast
  from A B C d(2) show ?thesis by blast
qed

subsection \<open>TokenBucket\<close>

lemma allow_request_step:
  assumes "rate_limit_enabled (config s)"
  shows "allow_request e s =
     (let t = clock e (reads (outside s));
          b = rate_limiter s;
          refilled = min (real_of_int (rate_limit_burst_size (config s)))
                         (float_add e (tokens b)
                            (float_mul e (float_sub e t (last_update b)) (rate b)))
      in (refilled \<ge> 1,
          s\<lparr> outside := (outside s)\<lparr> reads := Suc (reads (outside s)) \<rparr>,
             rate_limiter :=
               b\<lparr> tokens := (if refilled \<ge> 1 then float_sub e refilled 1 else refilled),
                  last_update := t \<rparr> \<rparr>))"
  using assms by (simp add: allow_request_def now_def Let_def)

lemma allow_requests_numeral:
  "allow_requests e (numeral k) s =
     (let (a, s1) = allow_request e s;
          (as, s2) = allow_requests e (pred_numeral k) s1
      in (a # as, s2))"
  by (simp add: numeral_eq_Suc)

text \<open>
  Claim C6 as stated fails in its last part: the wait of \<^verbatim>\<open>1 / rate\<close> seconds is a float
  and so is the refill computed from it. At 17 requests per minute the rate is the double
  nearest to \<open>17 / 60\<close>; after the burst of three, a call made \<^verbatim>\<open>1 / rate\<close> seconds later
  finds a refill of \<open>1 - 2 ^ - 53\<close> (Python prints 0.9999999999999999) and is refused.
\<close>

theorem C6_wait_falls_short:
  "rate (rate_limiter (new_system waiting_env slow_limiter_config))
     = 2552039788843281 / 9007199254740992
   \<and> clock waiting_env 8
     = float_div waiting_env 1 (rate (rate_limiter (new_system waiting_env slow_limiter_config)))
   \<and> fst (allow_requests waiting_env 6 (new_system waiting_env slow_limiter_config))
     = [True, True, True, False, False, False]
   \<and> tokens (rate_limiter (snd (allow_requests waiting_env 6
        (new_system waiting_env slow_limiter_config))))
     = 9007199254740991 / 9007199254740992"
proof -
  let ?s = "new_system waiting_env slow_limiter_config"
  have fl: "float_add waiting_env x y = double_round (x + y)"
    "float_sub waiting_env x y = double_round (x - y)"
    "float_mul waiting_env x y = double_round (x * y)"
    "float_div waiting_env x y = double_round (x / y)" for x y
    by (simp_all add: waiting_env_def still_env_def)
  have clk: "clock waiting_env n
      = (if n < 8 then 0 else double_round (1 / double_round (17 / 60)))" for n
    by (simp add: waiting_env_def)
  have r: "double_round (17 / 60) = 2552039788843281 / 9007199254740992"
    by (simp add: double_defs)
  have w: "double_round (1 / double_round (17 / 60)) = 1986882188545807 / 562949953421312"
    unfolding r by (simp add: double_defs)
  have st: "rate_limit_enabled (config ?s)" "rate_limit_burst_size (config ?s) = 3"
    "tokens (rate_limiter ?s) = 3"
    "rate (rate_limiter ?s) = 2552039788843281 / 9007199254740992"
    "last_update (rate_limiter ?s) = 0" "reads (outside ?s) = 3"
    by (simp_all add: new_system_def new_token_bucket_def slow_limiter_config_def
        default_config_def fl clk r)
  have A: "clock waiting_env 8 = float_div waiting_env 1 (rate (rate_limiter ?s))"
    by (simp add: clk fl st r)
  let ?b = "rate_limiter ?s"
  let ?s1 = "?s\<lparr> outside := (outside ?s)\<lparr> reads := 4 \<rparr>,
                rate_limiter := ?b\<lparr> tokens := 2, last_update := 0 \<rparr> \<rparr>"
  let ?s2 = "?s\<lparr> outside := (outside ?s)\<lparr> reads := 5 \<rparr>,
                rate_limiter := ?b\<lparr> tokens := 1, last_update := 0 \<rparr> \<rparr>"
  let ?s3 = "?s\<lparr> outside := (outside ?s)\<lparr> reads := 6 \<rparr>,
                rate_limiter := ?b\<lparr> tokens := 0, last_update := 0 \<rparr> \<rparr>"
  let ?s4 = "?s\<lparr> outside := (outside ?s)\<lparr> reads := 7 \<rparr>,
                rate_limiter := ?b\<lparr> tokens := 0, last_update := 0 \<rparr> \<rparr>"
  let ?s5 = "?s\<lparr> outside := (outside ?s)\<lparr> reads := 8 \<rparr>,
                rate_limiter := ?b\<lparr> tokens := 0, last_update := 0 \<rparr> \<rparr>"
  let ?s6 = "?s\<lparr> outside := (outside ?s)\<lparr> reads := 9 \<rparr>,
                rate_limiter := ?b\<lparr> tokens := 9007199254740991 / 9007199254740992,
                                   last_update := 1986882188545807 / 562949953421312 \<rparr> \<rparr>"
  have a1: "allow_request waiting_env ?s = (True, ?s1)"
    by (simp add: allow_request_step st clk fl double_round_small Let_def)
  have a2: "allow_request waiting_env ?s1 = (True, ?s2)"
    by (simp add: allow_request_step st clk fl double_round_small Let_def)
  have a3: "allow_request waiting_env ?s2 = (True, ?s3)"
    by (simp add: allow_request_step st clk fl double_round_small Let_def)
  have a4: "allow_request waiting_env ?s3 = (False, ?s4)"
    by (simp add: allow_request_step st clk fl double_round_small Let_def)
  have a5: "allow_request waiting_env ?s4 = (False, ?s5)"
    by (simp add: allow_request_step st clk fl double_round_small Let_def)
  have a6: "allow_request waiting_env ?s5 = (False, ?s6)"
    by (simp add: allow_request_step st clk fl w Let_def double_round_small del: diff_zero add_0_right)
       (simp add: double_defs)
  have run: "allow_requests waiting_env 6 ?s
      = ([True, True, True, False, False, False], ?s6)"
    by (simp add: allow_requests_numeral a1 a2 a3 a4 a5 a6)
  have B: "fst (allow_requests waiting_env 6 ?s) = [True, True, True, False, False, False]"
    by (simp add: run)
  have C: "tokens (rate_limiter (snd (allow_requests waiting_env 6 ?s)))
      = 9007199254740991 / 9007199254740992"
    by (simp add: run)
  from st(4) A B C show ?thesis by blast
qed

text \<open>
  Claim C6, amended: with rate limiting enabled, \<^verbatim>\<open>allow_request\<close> reads the clock, refills
  the bucket by the elapsed time times the rate, computed in floats and capped at the
  burst size, and stores the reading in \<open>last_update\<close>; it answers true and takes one
  token when at least one token is there, and answers false and takes nothing otherwise.
  Hence, for a bucket of burst size 3 that holds three tokens, five calls at one instant,
  the first of which finds the bucket full after its refill, are answered true, true,
  true, false, false and leave no token; the float arithmetic is supposed to be exact on
  the integers from 0 to 3 and on a zero elapsed time, as that of doubles is. A later
  call is answered true exactly when the refill computed for it, the float product of
  the time waited and the rate, has reached 1; when it has, and is below 2, one more call
  at that instant is answered false, so that exactly one more request is granted.
\<close>

theorem C6_token_bucket:
  "(rate_limit_enabled (config s) \<longrightarrow>
      allow_request e s =
        (let t = clock e (reads (outside s));
             b = rate_limiter s;
             refilled = min (real_of_int (rate_limit_burst_size (config s)))
                            (float_add e (tokens b)
                               (float_mul e (float_sub e t (last_update b)) (rate b)))
         in (refilled \<ge> 1,
             s\<lparr> outside := (outside s)\<lparr> reads := Suc (reads (outside s)) \<rparr>,
                rate_limiter :=
                  b\<lparr> tokens := (if refilled \<ge> 1 then float_sub e refilled 1 else refilled),
                     last_update := t \<rparr> \<rparr>)))
   \<and> (rate_limit_enabled (config s)
        \<and> rate_limit_burst_size (config s) = 3
        \<and> tokens (rate_limiter s) = 3
        \<and> (\<forall>i<5. clock e (reads (outside s) + i) = t1)
        \<and> 3 \<le> float_add e 3
                 (float_mul e (float_sub e t1 (last_update (rate_limiter s)))
                    (rate (rate_limiter s)))
        \<and> float_sub e 3 1 = 2 \<and> float_sub e 2 1 = 1 \<and> float_sub e 1 1 = 0
        \<and> float_sub e t1 t1 = 0 \<and> float_mul e 0 (rate (rate_limiter s)) = 0
        \<and> float_add e 2 0 = 2 \<and> float_add e 1 0 = 1 \<and> float_add e 0 0 = 0 \<longrightarrow>
      fst (allow_requests e 5 s) = [True, True, True, False, False]
      \<and> tokens (rate_limiter (snd (allow_requests e 5 s))) = 0
      \<and> fst (allow_request e (snd (allow_requests e 5 s)))
          = (1 \<le> float_add e 0
                    (float_mul e (float_sub e (clock e (reads (outside s) + 5)) t1)
                       (rate (rate_limiter s))))
      \<and> (let t2 = clock e (reads (outside s) + 5);
              refilled = min 3 (float_add e 0
                                  (float_mul e (float_sub e t2 t1) (rate (rate_limiter s))))
          in 1 \<le> refilled \<and> float_sub e refilled 1 < 1
             \<and> clock e (reads (outside s) + 6) = t2
             \<and> float_sub e t2 t2 = 0
             \<and> float_add e (float_sub e refilled 1) 0 = float_sub e refilled 1 \<longrightarrow>
             fst (allow_requests e 7 s)
               = [True, True, True, False, False, True, False]))"
proof (intro conjI impI)
  assume "rate_limit_enabled (config s)"
  then show "allow_request e s =
        (let t = clock e (reads (outside s));
             b = rate_limiter s;
             refilled = min (real_of_int (rate_limit_burst_size (config s)))
                            (float_add e (tokens b)
                               (float_mul e (float_sub e t (last_update b)) (rate b)))
         in (refilled \<ge> 1,
             s\<lparr> outside := (outside s)\<lparr> reads := Suc (reads (outside s)) \<rparr>,
                rate_limiter :=
                  b\<lparr> tokens := (if refilled \<ge> 1 then float_sub e refilled 1 else refilled),
                     last_update := t \<rparr> \<rparr>))"
    by (rule allow_request_step)
next
  assume h: "rate_limit_enabled (config s)
        \<and> rate_limit_burst_size (config s) = 3
        \<and> tokens (rate_limiter s) = 3
        \<and> (\<forall>i<5. clock e (reads (outside s) + i) = t1)
        \<and> 3 \<le> float_add e 3
                 (float_mul e (float_sub e t1 (last_update (rate_limiter s)))
                    (rate (rate_limiter s)))
        \<and> float_sub e 3 1 = 2 \<and> float_sub e 2 1 = 1 \<and> float_sub e 1 1 = 0
        \<and> float_sub e t1 t1 = 0 \<and> float_mul e 0 (rate (rate_limiter s)) = 0
        \<and> float_add e 2 0 = 2 \<and> float_add e 1 0 = 1 \<and> float_add e 0 0 = 0"
  define r where "r = reads (outside s)"
  define q where "q = rate (rate_limiter s)"
  define u where "u = last_update (rate_limiter s)"
  from h have en: "rate_limit_enabled (config s)"
    and burst: "rate_limit_burst_size (config s) = 3"
    and full: "tokens (rate_limiter s) = 3"
    and imm: "\<forall>i<5. clock e (reads (outside s) + i) = t1"
    and first: "3 \<le> float_add e 3 (float_mul e (float_sub e t1 u) q)"
    and arith: "float_sub e 3 1 = 2" "float_sub e 2 1 = 1" "float_sub e 1 1 = 0"
      "float_sub e t1 t1 = 0" "float_mul e 0 q = 0"
      "float_add e 2 0 = 2" "float_add e 1 0 = 1" "float_add e 0 0 = 0"
    by (simp_all add: q_def u_def)
  have c0: "clock e r = t1"
    using imm [rule_format, of 0] by (simp add: r_def)
  have c1: "clock e (Suc r) = t1"
    using imm [rule_format, of 1] by (simp add: r_def)
  have c2: "clock e (Suc (Suc r)) = t1"
    using imm [rule_format, of 2] by (simp add: r_def eval_nat_numeral)
  have c3: "clock e (Suc (Suc (Suc r))) = t1"
    using imm [rule_format, of 3] by (simp add: r_def eval_nat_numeral)
  have c4: "clock e (Suc (Suc (Suc (Suc r)))) = t1"
    using imm [rule_format, of 4] by (simp add: r_def eval_nat_numeral)
  have c5: "clock e (reads (outside s) + 5) = clock e (Suc (Suc (Suc (Suc (Suc r)))))"
    by (simp add: r_def eval_nat_numeral)
  have m: "min 3 (float_add e 3 (float_mul e (float_sub e t1 u) q)) = 3"
    using first by (simp add: min_def)
  let ?b = "rate_limiter s"
  let ?s1 = "s\<lparr> outside := (outside s)\<lparr> reads := Suc r \<rparr>,
                rate_limiter := ?b\<lparr> tokens := 2, last_update := t1 \<rparr> \<rparr>"
  let ?s2 = "s\<lparr> outside := (outside s)\<lparr> reads := Suc (Suc r) \<rparr>,
                rate_limiter := ?b\<lparr> tokens := 1, last_update := t1 \<rparr> \<rparr>"
  let ?s3 = "s\<lparr> outside := (outside s)\<lparr> reads := Suc (Suc (Suc r)) \<rparr>,
                rate_limiter := ?b\<lparr> tokens := 0, last_update := t1 \<rparr> \<rparr>"
  let ?s4 = "s\<lparr> outside := (outside s)\<lparr> reads := Suc (Suc (Suc (Suc r))) \<rparr>,
                rate_limiter := ?b\<lparr> tokens := 0, last_update := t1 \<rparr> \<rparr>"
  let ?s5 = "s\<lparr> outside := (outside s)\<lparr> reads := Suc (Suc (Suc (Suc (Suc r)))) \<rparr>,
                rate_limiter := ?b\<lparr> tokens := 0, last_update := t1 \<rparr> \<rparr>"
  have a1: "allow_request e s = (True, ?s1)"
    using en burst full c0 m arith
    by (simp add: allow_request_def now_def Let_def r_def [symmetric] q_def [symmetric]
        u_def [symmetric])
  have a2: "allow_request e ?s1 = (True, ?s2)"
    using en burst c1 arith
    by (simp add: allow_request_def now_def Let_def q_def [symmetric])
  have a3: "allow_request e ?s2 = (True, ?s3)"
    using en burst c2 arith
    by (simp add: allow_request_def now_def Let_def q_def [symmetric])
  have a4: "allow_request e ?s3 = (False, ?s4)"
    using en burst c3 arith
    by (simp add: allow_request_def now_def Let_def q_def [symmetric])
  have a5: "allow_request e ?s4 = (False, ?s5)"
    using en burst c4 arith
    by (simp add: allow_request_def now_def Let_def q_def [symmetric])
  have run: "allow_requests e 5 s = ([True, True, True, False, False], ?s5)"
    by (simp add: allow_requests_numeral a1 a2 a3 a4 a5)
  show "fst (allow_requests e 5 s) = [True, True, True, False, False]"
    by (simp add: run)
  show "tokens (rate_limiter (snd (allow_requests e 5 s))) = 0"
    by (simp add: run)
  have "fst (allow_request e ?s5)
      = (1 \<le> float_add e 0 (float_mul e (float_sub e
                (clock e (Suc (Suc (Suc (Suc (Suc r)))))) t1) q))"
    using en burst
    by (simp add: allow_request_def now_def Let_def q_def [symmetric] min_def)
  then show "fst (allow_request e (snd (allow_requests e 5 s)))
      = (1 \<le> float_add e 0
                (float_mul e (float_sub e (clock e (reads (outside s) + 5)) t1)
                   (rate (rate_limiter s))))"
    by (simp add: run c5 q_def)
  show "let t2 = clock e (reads (outside s) + 5);
            refilled = min 3 (float_add e 0
                                (float_mul e (float_sub e t2 t1) (rate (rate_limiter s))))
        in 1 \<le> refilled \<and> float_sub e refilled 1 < 1
           \<and> clock e (reads (outside s) + 6) = t2
           \<and> float_sub e t2 t2 = 0
           \<and> float_add e (float_sub e refilled 1) 0 = float_sub e refilled 1 \<longrightarrow>
           fst (allow_requests e 7 s) = [True, True, True, False, False, True, False]"
    unfolding Let_def
  proof (intro impI)
    define t2 where "t2 = clock e (Suc (Suc (Suc (Suc (Suc r)))))"
    define w where "w = min 3 (float_add e 0 (float_mul e (float_sub e t2 t1) q))"
    assume "1 \<le> min 3 (float_add e 0
                (float_mul e (float_sub e (clock e (reads (outside s) + 5)) t1)
                   (rate (rate_limiter s))))
        \<and> float_sub e (min 3 (float_add e 0
              (float_mul e (float_sub e (clock e (reads (outside s) + 5)) t1)
                 (rate (rate_limiter s))))) 1 < 1
        \<and> clock e (reads (outside s) + 6) = clock e (reads (outside s) + 5)
        \<and> float_sub e (clock e (reads (outside s) + 5)) (clock e (reads (outside s) + 5)) = 0
        \<and> float_add e (float_sub e (min 3 (float_add e 0
              (float_mul e (float_sub e (clock e (reads (outside s) + 5)) t1)
                 (rate (rate_limiter s))))) 1) 0
            = float_sub e (min 3 (float_add e 0
              (float_mul e (float_sub e (clock e (reads (outside s) + 5)) t1)
                 (rate (rate_limiter s))))) 1"
    then have g: "1 \<le> w" and l: "float_sub e w 1 < 1"
      and c6: "clock e (Suc (Suc (Suc (Suc (Suc (Suc r)))))) = t2"
      and z: "float_sub e t2 t2 = 0"
      and k: "float_add e (float_sub e w 1) 0 = float_sub e w 1"
      by (simp_all add: c5 w_def t2_def q_def r_def eval_nat_numeral)
    let ?s6 = "s\<lparr> outside := (outside s)\<lparr> reads := Suc (Suc (Suc (Suc (Suc (Suc r))))) \<rparr>,
                  rate_limiter := ?b\<lparr> tokens := float_sub e w 1, last_update := t2 \<rparr> \<rparr>"
    let ?s7 = "s\<lparr> outside := (outside s)
                    \<lparr> reads := Suc (Suc (Suc (Suc (Suc (Suc (Suc r)))))) \<rparr>,
                  rate_limiter := ?b\<lparr> tokens := float_sub e w 1, last_update := t2 \<rparr> \<rparr>"
    have g': "1 \<le> float_add e 0 (float_mul e (float_sub e t2 t1) q)"
      using g by (simp add: w_def)
    have a6: "allow_request e ?s5 = (True, ?s6)"
      using en burst g'
      by (simp add: allow_request_def now_def Let_def q_def [symmetric] t2_def [symmetric]
          w_def [symmetric])
    have a7: "allow_request e ?s6 = (False, ?s7)"
      using en burst l c6 z k arith(5)
      by (simp add: allow_request_def now_def Let_def q_def [symmetric] min_def)
    show "fst (allow_requests e 7 s) = [True, True, True, False, False, True, False]"
      by (simp add: allow_requests_numeral a1 a2 a3 a4 a5 a6 a7)
  qed
qed

theorem C6_token_bucket_witness:
  "fst (allow_requests step_env 5 (new_system step_env test_limiter_config))
     = [True, True, True, False, False]
   \<and> fst (allow_request step_env
        (snd (allow_requests step_env 5 (new_system step_env test_limiter_config)))) = True
   \<and> fst (allow_requests step_env 7 (new_system step_env test_limiter_config))
     = [True, True, True, False, False, True, False]
   \<and> fst (allow_request step_env (new_system step_env test_limiter_config)) = True
   \<and> tokens (rate_limiter (snd (allow_request step_env
        (new_system step_env test_limiter_config)))) = 2"
proof -
  let ?s = "new_system step_env test_limiter_config"
  have fl: "float_add step_env x y = double_round (x + y)"
    "float_sub step_env x y = double_round (x - y)"
    "float_mul step_env x y = double_round (x * y)" for x y
    by (simp_all add: step_env_def still_env_def)
  have st: "rate_limit_enabled (config ?s)" "rate_limit_burst_size (config ?s) = 3"
    "tokens (rate_limiter ?s) = 3" "rate (rate_limiter ?s) = 1"
    "last_update (rate_limiter ?s) = 0" "reads (outside ?s) = 3"
    by (simp_all add: new_system_def new_token_bucket_def test_limiter_config_def
        default_config_def step_env_def still_env_def double_round_small)
  have clk: "clock step_env n = (if n < 8 then 0 else 1)" for n
    by (simp add: step_env_def)
  have ck: "\<forall>i<5. clock step_env (reads (outside ?s) + i) = 0"
    "clock step_env (reads (outside ?s) + 5) = 1" "clock step_env (reads (outside ?s)) = 0"
    by (simp_all add: st clk)
  have h: "rate_limit_enabled (config ?s)
        \<and> rate_limit_burst_size (config ?s) = 3
        \<and> tokens (rate_limiter ?s) = 3
        \<and> (\<forall>i<5. clock step_env (reads (outside ?s) + i) = 0)
        \<and> 3 \<le> float_add step_env 3
                 (float_mul step_env (float_sub step_env 0 (last_update (rate_limiter ?s)))
                    (rate (rate_limiter ?s)))
        \<and> float_sub step_env 3 1 = 2 \<and> float_sub step_env 2 1 = 1
        \<and> float_sub step_env 1 1 = 0
        \<and> float_sub step_env 0 0 = 0 \<and> float_mul step_env 0 (rate (rate_limiter ?s)) = 0
        \<and> float_add step_env 2 0 = 2 \<and> float_add step_env 1 0 = 1
        \<and> float_add step_env 0 0 = 0"
    using ck(1) by (simp add: st fl double_round_small)
  note T = C6_token_bucket [where s = "?s" and e = step_env and ?t1.0 = 0]
  note burst = T [THEN conjunct2, THEN mp, OF h]
  have A1: "fst (allow_requests step_env 5 ?s) = [True, True, True, False, False]"
    using burst [THEN conjunct1] .
  have A2: "fst (allow_request step_env (snd (allow_requests step_env 5 ?s))) = True"
    using burst [THEN conjunct2, THEN conjunct2, THEN conjunct1]
    by (simp add: clk st fl double_round_small)
  have A3: "fst (allow_requests step_env 7 ?s)
      = [True, True, True, False, False, True, False]"
    using burst [THEN conjunct2, THEN conjunct2, THEN conjunct2]
    by (simp add: clk st fl double_round_small Let_def)
  note A = conjI [OF A1 conjI [OF A2 A3]]
  from T [THEN conjunct1, THEN mp, OF st(1)]
  have B: "fst (allow_request step_env ?s) = True
      \<and> tokens (rate_limiter (snd (allow_request step_env ?s))) = 2"
    by (simp add: clk st fl double_round_small Let_def)
  from A B show ?thesis by blast
qed

subsection \<open>LRUCache.get\<close>

lemma cache_get_miss:
  "cache_enabled (config s) \<Longrightarrow> map_of (cache s) key = None \<Longrightarrow>
   cache_get e key s = (None, s\<lparr> metrics := increment ''cache_miss'' 1 (metrics s) \<rparr>)"
  by (simp add: cache_get_def)

lemma map_of_del_key: "map_of (del_key key d) key = None"
  by (induction d) (auto simp: del_key_def)

lemma cache_get_expired:
  assumes "cache_enabled (config s)" and "map_of (cache s) key = Some entry"
    and "clock e (reads (outside s)) - timestamp entry \<ge> real_of_int (ttl entry)"
  shows "cache_get e key s =
     (None, s\<lparr> outside := (outside s)\<lparr> reads := Suc (reads (outside s)) \<rparr>,
               cache := del_key key (cache s),
               metrics := increment ''cache_expired'' 1 (metrics s) \<rparr>)"
  using assms by (simp add: cache_get_def is_expired_def now_def Let_def)

lemma cache_get_hit:
  assumes "cache_enabled (config s)" and "map_of (cache s) key = Some entry"
    and "clock e (reads (outside s)) - timestamp entry < real_of_int (ttl entry)"
  shows "cache_get e key s =
     (Some (entry_value entry),
      s\<lparr> outside := (outside s)\<lparr> reads := Suc (reads (outside s)) \<rparr>,
         cache := del_key key (cache s) @ [(key, entry)],
         metrics := increment ''cache_hit'' 1 (metrics s) \<rparr>)"
  using assms by (simp add: cache_get_def is_expired_def now_def Let_def move_to_end_def)

lemma counter_increment:
  "counter (increment name v m) name' =
     (if name' = name then counter m name + v else counter m name')"
  by (simp add: counter_def increment_def)

text \<open>
  Claim C7: on an enabled cache, \<^verbatim>\<open>get\<close> of an absent key is a miss: it returns
  \<^verbatim>\<open>None\<close>, adds one to the counter \<open>cache_miss\<close> and changes nothing else. For a
  present key whose age at the clock reading has reached its TTL, the answer is
  \<^verbatim>\<open>None\<close>, the entry of that key is gone and all other entries stay in their order,
  \<open>cache_expired\<close> is one more than before and no other counter, \<open>cache_miss\<close> among
  them, changes. Otherwise the answer is the stored value, the entry stands last, at the
  most recently used end, behind all other entries in their old order, and \<open>cache_hit\<close>
  is one more than before and no other counter changes. In the last two cases the clock
  has been read once.
\<close>

theorem C7_cache_get:
  assumes "cache_enabled (config s)"
  shows "(map_of (cache s) key = None \<longrightarrow>
            cache_get e key s
              = (None,
                 s\<lparr> metrics := (metrics s)
                     \<lparr> counters := (counters (metrics s))
                         (''cache_miss'' \<mapsto> counter (metrics s) ''cache_miss'' + 1) \<rparr> \<rparr>)
          \<and> counter (metrics (snd (cache_get e key s))) ''cache_miss''
              = counter (metrics s) ''cache_miss'' + 1)
    \<and> (\<forall>entry. map_of (cache s) key = Some entry \<longrightarrow>
         (clock e (reads (outside s)) - timestamp entry \<ge> real_of_int (ttl entry) \<longrightarrow>
            cache_get e key s
              = (None,
                 s\<lparr> outside := (outside s)\<lparr> reads := Suc (reads (outside s)) \<rparr>,
                    cache := filter (\<lambda>kv. fst kv \<noteq> key) (cache s),
                    metrics := (metrics s)
                      \<lparr> counters := (counters (metrics s))
                          (''cache_expired'' \<mapsto> counter (metrics s) ''cache_expired'' + 1) \<rparr> \<rparr>)
          \<and> map_of (cache (snd (cache_get e key s))) key = None
          \<and> counter (metrics (snd (cache_get e key s))) ''cache_expired''
              = counter (metrics s) ''cache_expired'' + 1
          \<and> counter (metrics (snd (cache_get e key s))) ''cache_miss''
              = counter (metrics s) ''cache_miss'')
       \<and> (clock e (reads (outside s)) - timestamp entry < real_of_int (ttl entry) \<longrightarrow>
            cache_get e key s
              = (Some (entry_value entry),
                 s\<lparr> outside := (outside s)\<lparr> reads := Suc (reads (outside s)) \<rparr>,
                    cache := filter (\<lambda>kv. fst kv \<noteq> key) (cache s) @ [(key, entry)],
                    metrics := (metrics s)
                      \<lparr> counters := (counters (metrics s))
                          (''cache_hit'' \<mapsto> counter (metrics s) ''cache_hit'' + 1) \<rparr> \<rparr>)
          \<and> counter (metrics (snd (cache_get e key s))) ''cache_hit''
              = counter (metrics s) ''cache_hit'' + 1))"
proof (intro conjI allI impI)
  assume m: "map_of (cache s) key = None"
  note eq = cache_get_miss [OF assms m, of e]
  show "cache_get e key s
      = (None,
         s\<lparr> metrics := (metrics s)
             \<lparr> counters := (counters (metrics s))
                 (''cache_miss'' \<mapsto> counter (metrics s) ''cache_miss'' + 1) \<rparr> \<rparr>)"
    by (simp add: eq increment_def)
  show "counter (metrics (snd (cache_get e key s))) ''cache_miss''
      = counter (metrics s) ''cache_miss'' + 1"
    by (simp add: eq counter_increment)
next
  fix entry
  assume m: "map_of (cache s) key = Some entry"
    and x: "clock e (reads (outside s)) - timestamp entry \<ge> real_of_int (ttl entry)"
  note eq = cache_get_expired [OF assms m x]
  show "cache_get e key s
      = (None,
         s\<lparr> outside := (outside s)\<lparr> reads := Suc (reads (outside s)) \<rparr>,
            cache := filter (\<lambda>kv. fst kv \<noteq> key) (cache s),
            metrics := (metrics s)
              \<lparr> counters := (counters (metrics s))
                  (''cache_expired'' \<mapsto> counter (metrics s) ''cache_expired'' + 1) \<rparr> \<rparr>)"
    by (simp add: eq increment_def del_key_def)
  show "map_of (cache (snd (cache_get e key s))) key = None"
    by (simp add: eq map_of_del_key)
  show "counter (metrics (snd (cache_get e key s))) ''cache_expired''
      = counter (metrics s) ''cache_expired'' + 1"
    by (simp add: eq counter_increment)
  show "counter (metrics (snd (cache_get e key s))) ''cache_miss''
      = counter (metrics s) ''cache_miss''"
    by (simp add: eq counter_increment)
next
  fix entry
  assume m: "map_of (cache s) key = Some entry"
    and x: "clock e (reads (outside s)) - timestamp entry < real_of_int (ttl entry)"
  note eq = cache_get_hit [OF assms m x]
  show "cache_get e key s
      = (Some (entry_value entry),
         s\<lparr> outside := (outside s)\<lparr> reads := Suc (reads (outside s)) \<rparr>,
            cache := filter (\<lambda>kv. fst kv \<noteq> key) (cache s) @ [(key, entry)],
            metrics := (metrics s)
              \<lparr> counters := (counters (metrics s))
                  (''cache_hit'' \<mapsto> counter (metrics s) ''cache_hit'' + 1) \<rparr> \<rparr>)"
    by (simp add: eq increment_def del_key_def)
  show "counter (metrics (snd (cache_get e key s))) ''cache_hit''
      = counter (metrics s) ''cache_hit'' + 1"
    by (simp add: eq counter_increment)
qed

lemma three_entry_system_facts:
  "cache_enabled (config three_entry_system)"
  "cache three_entry_system =
     [(''a'', \<lparr> entry_value = JStr ''1'', timestamp = 0, ttl = 1 \<rparr>),
      (''b'', \<lparr> entry_value = JStr ''2'', timestamp = 0, ttl = 1 \<rparr>),
      (''c'', \<lparr> entry_value = JStr ''3'', timestamp = 0, ttl = 1 \<rparr>)]"
  "reads (outside three_entry_system) = 6"
  "counters (metrics three_entry_system) = Map.empty"
  by (simp_all add: three_entry_system_def cache_set_def now_def Let_def new_system_def
      test_cache_config_def default_config_def step_env_def still_env_def set_gauge_def
      new_metrics_def)

theorem C7_cache_get_witness:
  "fst (cache_get step_env ''z'' three_entry_system) = None
   \<and> map fst (cache (snd (cache_get step_env ''z'' three_entry_system))) = [''a'', ''b'', ''c'']
   \<and> counter (metrics (snd (cache_get step_env ''z'' three_entry_system))) ''cache_miss'' = 1
   \<and> fst (cache_get step_env ''b'' three_entry_system) = Some (JStr ''2'')
   \<and> map fst (cache (snd (cache_get step_env ''b'' three_entry_system))) = [''a'', ''c'', ''b'']
   \<and> counter (metrics (snd (cache_get step_env ''b'' three_entry_system))) ''cache_hit'' = 1
   \<and> fst (cache_get step_env ''b''
        (three_entry_system\<lparr> outside := (outside three_entry_system)\<lparr> reads := 8 \<rparr> \<rparr>)) = None
   \<and> map fst (cache (snd (cache_get step_env ''b''
        (three_entry_system\<lparr> outside := (outside three_entry_system)\<lparr> reads := 8 \<rparr> \<rparr>))))
       = [''a'', ''c'']
   \<and> counter (metrics (snd (cache_get step_env ''b''
        (three_entry_system\<lparr> outside := (outside three_entry_system)\<lparr> reads := 8 \<rparr> \<rparr>))))
        ''cache_expired'' = 1
   \<and> counter (metrics (snd (cache_get step_env ''b''
        (three_entry_system\<lparr> outside := (outside three_entry_system)\<lparr> reads := 8 \<rparr> \<rparr>))))
        ''cache_miss'' = 0"
proof -
  let ?entry = "\<lparr> entry_value = JStr ''2'', timestamp = 0, ttl = 1 \<rparr>"
  let ?s = "three_entry_system"
  let ?late = "three_entry_system\<lparr> outside := (outside three_entry_system)\<lparr> reads := 8 \<rparr> \<rparr>"
  have en: "cache_enabled (config ?s)" "cache_enabled (config ?late)"
    by (simp_all add: three_entry_system_facts)
  have absent: "map_of (cache ?s) ''z'' = None"
    by (simp add: three_entry_system_facts)
  have present: "map_of (cache ?s) ''b'' = Some ?entry"
    "map_of (cache ?late) ''b'' = Some ?entry"
    by (simp_all add: three_entry_system_facts)
  have fresh: "clock step_env (reads (outside ?s)) - timestamp ?entry
      < real_of_int (ttl ?entry)"
    by (simp add: three_entry_system_facts step_env_def)
  have stale: "clock step_env (reads (outside ?late)) - timestamp ?entry
      \<ge> real_of_int (ttl ?entry)"
    by (simp add: step_env_def)
  have zero: "counter (metrics ?s) name = 0" "counter (metrics ?late) name = 0" for name
    by (simp_all add: counter_def three_entry_system_facts)
  note miss = C7_cache_get [OF en(1), of "''z''" step_env, THEN conjunct1, THEN mp,
      OF absent]
  note hit = C7_cache_get [OF en(1), of "''b''" step_env, THEN conjunct2, THEN spec,
      THEN mp, OF present(1), THEN conjunct2, THEN mp, OF fresh]
  note expired = C7_cache_get [OF en(2), of "''b''" step_env, THEN conjunct2, THEN spec,
      THEN mp, OF present(2), THEN conjunct1, THEN mp, OF stale]
  have A1: "fst (cache_get step_env ''z'' ?s) = None
      \<and> map fst (cache (snd (cache_get step_env ''z'' ?s))) = [''a'', ''b'', ''c'']"
    using miss [THEN conjunct1] by (simp add: three_entry_system_facts)
  have A2: "counter (metrics (snd (cache_get step_env ''z'' ?s))) ''cache_miss'' = 1"
    using miss [THEN conjunct2] by (simp add: zero)
  have B1: "fst (cache_get step_env ''b'' ?s) = Some (JStr ''2'')
      \<and> map fst (cache (snd (cache_get step_env ''b'' ?s))) = [''a'', ''c'', ''b'']"
    using hit [THEN conjunct1] by (simp add: three_entry_system_facts)
  have B2: "counter (metrics (snd (cache_get step_env ''b'' ?s))) ''cache_hit'' = 1"
    using hit [THEN conjunct2] by (simp add: zero)
  have C1: "fst (cache_get step_env ''b'' ?late) = None
      \<and> map fst (cache (snd (cache_get step_env ''b'' ?late))) = [''a'', ''c'']"
    using expired [THEN conjunct1] by (simp add: three_entry_system_facts)
  have C2: "counter (metrics (snd (cache_get step_env ''b'' ?late))) ''cache_expired'' = 1"
    using expired [THEN conjunct2, THEN conjunct2, THEN conjunct1] by (simp add: zero)
  have C3: "counter (metrics (snd (cache_get step_env ''b'' ?late))) ''cache_miss'' = 0"
    using expired [THEN conjunct2, THEN conjunct2, THEN conjunct2] by (simp add: zero)
  from A1 A2 B1 B2 C1 C2 C3 show ?thesis by blast
qed

subsection \<open>A request the rate limiter turns away\<close>

text \<open>
  Claim C8: when the rate limiter denies the request, \<^verbatim>\<open>translate_command\<close> returns
  \<^verbatim>\<open>None\<close> at once; the cache (contents and order), the breaker, the metrics and the
  configuration are as before and no provider call is made.
\<close>

theorem C8_rate_limited_frame:
  assumes "\<not> fst (allow_request e (snd (now e s)))"
  shows "fst (translate_command e user_input context s) = Inr None
    \<and> cache (snd (translate_command e user_input context s)) = cache s
    \<and> circuit_breaker (snd (translate_command e user_input context s)) = circuit_breaker s
    \<and> metrics (snd (translate_command e user_input context s)) = metrics s
    \<and> config (snd (translate_command e user_input context s)) = config s
    \<and> calls (outside (snd (translate_command e user_input context s))) = calls (outside s)"
proof -
  obtain a s1 where a: "allow_request e (snd (now e s)) = (a, s1)"
    by (cases "allow_request e (snd (now e s))")
  with assms have na: "\<not> a" by simp
  have frame: "cache s1 = cache s \<and> circuit_breaker s1 = circuit_breaker s
      \<and> metrics s1 = metrics s \<and> config s1 = config s
      \<and> calls (outside s1) = calls (outside s)"
    using a by (auto simp: allow_request_def now_def Let_def split: if_splits)
  have "translate_command e user_input context s = (Inr None, s1)"
    using a na by (simp add: translate_command_def translate_body_def now_def)
  with frame show ?thesis by simp
qed

theorem C8_rate_limited_frame_witness:
  "\<not> fst (allow_request still_env (snd (now still_env
        (snd (allow_request still_env
           (new_system still_env (default_config\<lparr> rate_limit_burst_size := 1 \<rparr>)))))))
   \<and> fst (translate_command still_env ''list files'' [(''cwd'', JStr ''/'')]
        (snd (allow_request still_env
           (new_system still_env (default_config\<lparr> rate_limit_burst_size := 1 \<rparr>)))))
      = Inr None"
proof -
  have denied: "\<not> fst (allow_request still_env (snd (now still_env
        (snd (allow_request still_env
           (new_system still_env (default_config\<lparr> rate_limit_burst_size := 1 \<rparr>)))))))"
    by (simp add: allow_request_def now_def Let_def new_system_def default_config_def
        still_env_def new_token_bucket_def double_round_small)
  from C8_rate_limited_frame [OF denied, of "''list files''" "[(''cwd'', JStr ''/'')]"] denied
  show ?thesis by blast
qed

subsection \<open>The retried call\<close>

lemma call_llm_state:
  "snd (call_llm e s)
     = s\<lparr> outside := (outside s)\<lparr> calls := calls (outside s) @ [llm_model (config s)] \<rparr> \<rparr>"
  by (simp add: call_llm_def Let_def split: reply.splits option.splits)

lemma call_llm_raises:
  "isl (fst (call_llm e s))
     = invocation_raises e (length (calls (outside s))) (llm_model (config s))"
  by (simp add: call_llm_def invocation_raises_def Let_def split: reply.splits option.splits)

lemma call_llm_succeeds:
  "(case fst (call_llm e s) of Inl x \<Rightarrow> False | Inr r \<Rightarrow> truthy_opt r)
     = invocation_succeeds e (length (calls (outside s))) (llm_model (config s))"
  by (simp add: call_llm_def invocation_succeeds_def Let_def split: reply.splits option.splits)

lemma raises_not_succeeds: "invocation_raises e n m \<Longrightarrow> \<not> invocation_succeeds e n m"
  by (auto simp: invocation_raises_def invocation_succeeds_def
      split: reply.splits option.splits sum.splits)

lemma call_llm_returns:
  assumes "provider e (length (calls (outside s))) (llm_model (config s)) = Content (Some txt)"
    and "parse_llm_response e txt = Inr result"
  shows "call_llm e s
     = (Inr result,
        s\<lparr> outside := (outside s)\<lparr> calls := calls (outside s) @ [llm_model (config s)] \<rparr> \<rparr>)"
  using assms by (simp add: call_llm_def Let_def)

lemma call_llm_raising:
  assumes "invocation_raises e (length (calls (outside s))) (llm_model (config s))"
  shows "\<exists>x. call_llm e s
     = (Inl x,
        s\<lparr> outside := (outside s)\<lparr> calls := calls (outside s) @ [llm_model (config s)] \<rparr> \<rparr>)"
proof -
  obtain r s1 where c: "call_llm e s = (r, s1)" by (cases "call_llm e s")
  from assms call_llm_raises [of e s] c obtain x where "r = Inl x"
    by (cases r) auto
  with c call_llm_state [of e s] show ?thesis by simp
qed

lemma backoff_delay_value:
  assumes "float_of_int e (retry_exponential_base (config s) ^ a) = Some factor"
  shows "backoff_delay e a s =
     (let capped = min (retry_max_delay (config s))
                     (float_mul e (retry_base_delay (config s)) factor)
      in if retry_jitter (config s)
         then (Inr (float_add e capped
                      (float_add e 0
                         (float_mul e (float_sub e (float_mul e capped float_tenth) 0)
                            (random01 e (draws (outside s)))))),
               s\<lparr> outside := (outside s)\<lparr> draws := Suc (draws (outside s)) \<rparr> \<rparr>)
         else (Inr capped, s))"
  using assms by (simp add: backoff_delay_def uniform_def random_draw_def Let_def)

lemma backoff_delay_overflow:
  assumes "float_of_int e (retry_exponential_base (config s) ^ a) = None"
  shows "backoff_delay e a s = (Inl OverflowError, s)"
  using assms by (simp add: backoff_delay_def)

lemma backoff_delay_frame:
  "calls (outside (snd (backoff_delay e a s))) = calls (outside s)"
  "sleeps (outside (snd (backoff_delay e a s))) = sleeps (outside s)"
  "config (snd (backoff_delay e a s)) = config s"
  by (simp_all add: backoff_delay_def uniform_def random_draw_def Let_def
      split: prod.splits option.splits)

lemma retry_loop_returns:
  assumes "call_llm e s = (Inr result, s1)"
  shows "retry_loop e a (Suc n) l s
     = (Inr result,
        if a > 0 then s1\<lparr> metrics := increment ''retry_success'' 1 (metrics s1) \<rparr> else s1)"
  using assms by simp

lemma retry_loop_retries:
  assumes "call_llm e s = (Inl x, s1)"
    and "int a < retry_max_attempts (config s1) - 1"
    and "backoff_delay e a s1 = (Inr delay, s2)"
  shows "retry_loop e a (Suc n) l s
     = retry_loop e (Suc a) n (Some x)
         (sleep delay (s2\<lparr> metrics := increment ''retry_attempt'' 1 (metrics s2) \<rparr>))"
  using assms by (simp add: Let_def)

lemma retry_loop_overflow:
  assumes "call_llm e s = (Inl x, s1)"
    and "int a < retry_max_attempts (config s1) - 1"
    and "backoff_delay e a s1 = (Inl y, s2)"
  shows "retry_loop e a (Suc n) l s = (Inl y, s2)"
  using assms by simp

lemma retry_loop_last:
  assumes "call_llm e s = (Inl x, s1)"
    and "\<not> int a < retry_max_attempts (config s1) - 1"
  shows "retry_loop e a (Suc n) l s
     = retry_loop e (Suc a) n (Some x)
         (s1\<lparr> metrics := increment ''retry_exhausted'' 1 (metrics s1) \<rparr>)"
  using assms by simp

declare retry_loop.simps [simp del]

lemma retry_loop_extends:
  "\<exists>cs ds. calls (outside (snd (retry_loop e a n l s))) = calls (outside s) @ cs
         \<and> sleeps (outside (snd (retry_loop e a n l s))) = sleeps (outside s) @ ds"
proof (induction n arbitrary: a l s)
  case 0
  show ?case by (simp add: retry_loop.simps split: option.splits)
next
  case (Suc n)
  obtain r s1 where c: "call_llm e s = (r, s1)" by (cases "call_llm e s")
  have s1: "calls (outside s1) = calls (outside s) @ [llm_model (config s)]"
    "sleeps (outside s1) = sleeps (outside s)"
    using call_llm_state [of e s] c by simp_all
  show ?case
  proof (cases r)
    case (Inr res)
    from retry_loop_returns [OF c [unfolded Inr], of a n l] s1 show ?thesis by simp
  next
    case (Inl x)
    show ?thesis
    proof (cases "int a < retry_max_attempts (config s1) - 1")
      case True
      obtain d s2 where d: "backoff_delay e a s1 = (d, s2)"
        by (cases "backoff_delay e a s1")
      have s2: "calls (outside s2) = calls (outside s1)"
        "sleeps (outside s2) = sleeps (outside s1)"
        using backoff_delay_frame [of e a s1] d by simp_all
      show ?thesis
      proof (cases d)
        case (Inl y)
        from retry_loop_overflow [OF c [unfolded \<open>r = Inl x\<close>] True d [unfolded Inl], of n l]
          s1 s2
        show ?thesis by simp
      next
        case (Inr delay)
        let ?s3 = "sleep delay (s2\<lparr> metrics := increment ''retry_attempt'' 1 (metrics s2) \<rparr>)"
        note eq = retry_loop_retries [OF c [unfolded \<open>r = Inl x\<close>] True d [unfolded Inr], of n l]
        from Suc.IH [of "Suc a" "Some x" ?s3] obtain cs ds where
          "calls (outside (snd (retry_loop e (Suc a) n (Some x) ?s3)))
             = calls (outside ?s3) @ cs"
          "sleeps (outside (snd (retry_loop e (Suc a) n (Some x) ?s3)))
             = sleeps (outside ?s3) @ ds"
          by blast
        then show ?thesis
          unfolding eq using s1 s2 by (simp add: sleep_def)
      qed
    next
      case False
      let ?s3 = "s1\<lparr> metrics := increment ''retry_exhausted'' 1 (metrics s1) \<rparr>"
      note eq = retry_loop_last [OF c [unfolded Inl] False, of n l]
      from Suc.IH [of "Suc a" "Some x" ?s3] obtain cs ds where
        "calls (outside (snd (retry_loop e (Suc a) n (Some x) ?s3)))
           = calls (outside ?s3) @ cs"
        "sleeps (outside (snd (retry_loop e (Suc a) n (Some x) ?s3)))
           = sleeps (outside ?s3) @ ds"
        by blast
      then show ?thesis
        unfolding eq using s1 by simp
    qed
  qed
qed

lemma retry_loop_first_call:
  "\<exists>cs. calls (outside (snd (retry_loop e a (Suc n) l s)))
        = calls (outside s) @ llm_model (config s) # cs"
proof -
  obtain r s1 where c: "call_llm e s = (r, s1)" by (cases "call_llm e s")
  have s1: "calls (outside s1) = calls (outside s) @ [llm_model (config s)]"
    using call_llm_state [of e s] c by simp
  show ?thesis
  proof (cases r)
    case (Inr res)
    from retry_loop_returns [OF c [unfolded Inr], of a n l] s1 show ?thesis by simp
  next
    case (Inl x)
    show ?thesis
    proof (cases "int a < retry_max_attempts (config s1) - 1")
      case True
      obtain d s2 where d: "backoff_delay e a s1 = (d, s2)"
        by (cases "backoff_delay e a s1")
      have s2: "calls (outside s2) = calls (outside s1)"
        using backoff_delay_frame [of e a s1] d by simp
      show ?thesis
      proof (cases d)
        case (Inl y)
        from retry_loop_overflow [OF c [unfolded \<open>r = Inl x\<close>] True d [unfolded Inl], of n l]
          s1 s2
        show ?thesis by simp
      next
        case (Inr delay)
        let ?s3 = "sleep delay (s2\<lparr> metrics := increment ''retry_attempt'' 1 (metrics s2) \<rparr>)"
        note eq = retry_loop_retries [OF c [unfolded \<open>r = Inl x\<close>] True d [unfolded Inr], of n l]
        from retry_loop_extends [of e "Suc a" n "Some x" ?s3] obtain cs where
          "calls (outside (snd (retry_loop e (Suc a) n (Some x) ?s3)))
             = calls (outside ?s3) @ cs"
          by blast
        then show ?thesis
          unfolding eq using s1 s2 by (simp add: sleep_def)
      qed
    next
      case False
      let ?s3 = "s1\<lparr> metrics := increment ''retry_exhausted'' 1 (metrics s1) \<rparr>"
      note eq = retry_loop_last [OF c [unfolded Inl] False, of n l]
      from retry_loop_extends [of e "Suc a" n "Some x" ?s3] obtain cs where
        "calls (outside (snd (retry_loop e (Suc a) n (Some x) ?s3)))
           = calls (outside ?s3) @ cs"
        by blast
      then show ?thesis
        unfolding eq using s1 by simp
    qed
  qed
qed

text \<open>
  Claim C3 as stated fails: a response that does not parse is not retried. With three
  attempts configured and a provider that answers in prose, the wrapper returns
  \<^verbatim>\<open>None\<close> after a single call and without any delay.
\<close>

theorem C3_parse_failure_not_retried:
  "retry_max_attempts (config (new_system prose_env default_config)) = 3
   \<and> fst (call_llm_with_retry_wrapper prose_env (new_system prose_env default_config))
       = Inr None
   \<and> calls (outside (snd (call_llm_with_retry_wrapper prose_env
         (new_system prose_env default_config)))) = [''gpt-4.1-mini'']
   \<and> sleeps (outside (snd (call_llm_with_retry_wrapper prose_env
         (new_system prose_env default_config)))) = []"
  by (simp add: call_llm_with_retry_wrapper_def eval_nat_numeral retry_loop.simps
      call_llm_def parse_llm_response_def search_braces_def prose_env_def still_env_def
      new_system_def default_config_def Let_def)

text \<open>
  Claim C3, amended. The wrapper is the loop below, started at attempt 0 with
  \<open>retry_max_attempts\<close> attempts to go; the three further statements hold of every
  attempt of the loop. An attempt whose call returns ends the loop with what the call
  returned, also when that is \<^verbatim>\<open>None\<close> because the response did not parse: there is no
  delay and no further call, and the only other effect is that \<open>retry_success\<close> is
  counted when the attempt was not the first. An attempt that raises while attempts
  remain is followed by one delay and the next attempt: the delay is the smaller of
  \<open>retry_max_delay\<close> and the float product of \<open>retry_base_delay\<close> and the power of the
  exponential base, with the jitter drawn on top when configured, \<open>retry_attempt\<close> is
  counted, and within the wrapper's range of attempts the provider is called again with
  the same model. This supposes that the power is in the range of a float; when it is
  not, the wrapper ends at once with \<^verbatim>\<open>OverflowError\<close>.
\<close>

theorem C3_retry_wrapper:
  "call_llm_with_retry_wrapper e s
     = retry_loop e 0 (nat (retry_max_attempts (config s))) None s
   \<and> (provider e (length (calls (outside s))) (llm_model (config s)) = Content (Some answer)
        \<and> parse_llm_response e answer = Inr result \<longrightarrow>
      retry_loop e attempt (Suc left) last_exception s
        = (Inr result,
           s\<lparr> outside := (outside s)
                 \<lparr> calls := calls (outside s) @ [llm_model (config s)] \<rparr>,
              metrics :=
                (if attempt > 0
                 then (metrics s)
                   \<lparr> counters := (counters (metrics s))
                       (''retry_success'' \<mapsto> counter (metrics s) ''retry_success'' + 1) \<rparr>
                 else metrics s) \<rparr>))
   \<and> (invocation_raises e (length (calls (outside s))) (llm_model (config s))
        \<and> int attempt < retry_max_attempts (config s) - 1
        \<and> float_of_int e (retry_exponential_base (config s) ^ attempt) = Some factor \<longrightarrow>
      (let capped = min (retry_max_delay (config s))
                      (float_mul e (retry_base_delay (config s)) factor);
           delay =
             (if retry_jitter (config s)
              then float_add e capped
                     (float_add e 0
                        (float_mul e (float_sub e (float_mul e capped float_tenth) 0)
                           (random01 e (draws (outside s)))))
              else capped)
       in (\<exists>x. retry_loop e attempt (Suc left) last_exception s
             = retry_loop e (Suc attempt) left (Some x)
                 (s\<lparr> outside := (outside s)
                       \<lparr> calls := calls (outside s) @ [llm_model (config s)],
                         draws := (if retry_jitter (config s)
                                   then Suc (draws (outside s)) else draws (outside s)),
                         sleeps := sleeps (outside s) @ [delay] \<rparr>,
                     metrics := (metrics s)
                       \<lparr> counters := (counters (metrics s))
                           (''retry_attempt'' \<mapsto> counter (metrics s) ''retry_attempt'' + 1) \<rparr> \<rparr>))
          \<and> (int attempt + int (Suc left) = retry_max_attempts (config s) \<longrightarrow>
               (\<exists>cs ds.
                  calls (outside (snd (retry_loop e attempt (Suc left) last_exception s)))
                    = calls (outside s) @ [llm_model (config s), llm_model (config s)] @ cs
                  \<and> sleeps (outside (snd (retry_loop e attempt (Suc left) last_exception s)))
                    = sleeps (outside s) @ delay # ds))))
   \<and> (invocation_raises e (length (calls (outside s))) (llm_model (config s))
        \<and> int attempt < retry_max_attempts (config s) - 1
        \<and> float_of_int e (retry_exponential_base (config s) ^ attempt) = None \<longrightarrow>
      retry_loop e attempt (Suc left) last_exception s
        = (Inl OverflowError,
           s\<lparr> outside := (outside s)
                 \<lparr> calls := calls (outside s) @ [llm_model (config s)] \<rparr> \<rparr>))"
proof (intro conjI impI)
  show "call_llm_with_retry_wrapper e s
     = retry_loop e 0 (nat (retry_max_attempts (config s))) None s"
    by (simp add: call_llm_with_retry_wrapper_def)
next
  assume "provider e (length (calls (outside s))) (llm_model (config s)) = Content (Some answer)
        \<and> parse_llm_response e answer = Inr result"
  then have c: "call_llm e s = (Inr result,
        s\<lparr> outside := (outside s)\<lparr> calls := calls (outside s) @ [llm_model (config s)] \<rparr> \<rparr>)"
    by (simp add: call_llm_returns)
  show "retry_loop e attempt (Suc left) last_exception s
        = (Inr result,
           s\<lparr> outside := (outside s)
                 \<lparr> calls := calls (outside s) @ [llm_model (config s)] \<rparr>,
              metrics :=
                (if attempt > 0
                 then (metrics s)
                   \<lparr> counters := (counters (metrics s))
                       (''retry_success'' \<mapsto> counter (metrics s) ''retry_success'' + 1) \<rparr>
                 else metrics s) \<rparr>)"
    by (simp add: retry_loop_returns [OF c] increment_def)
next
  assume h: "invocation_raises e (length (calls (outside s))) (llm_model (config s))
        \<and> int attempt < retry_max_attempts (config s) - 1
        \<and> float_of_int e (retry_exponential_base (config s) ^ attempt) = Some factor"
  let ?m = "llm_model (config s)"
  let ?s1 = "s\<lparr> outside := (outside s)\<lparr> calls := calls (outside s) @ [?m] \<rparr> \<rparr>"
  define capped where
    "capped = min (retry_max_delay (config s)) (float_mul e (retry_base_delay (config s)) factor)"
  define delay where
    "delay = (if retry_jitter (config s)
              then float_add e capped
                     (float_add e 0
                        (float_mul e (float_sub e (float_mul e capped float_tenth) 0)
                           (random01 e (draws (outside s)))))
              else capped)"
  let ?s2 = "if retry_jitter (config s)
             then ?s1\<lparr> outside := (outside ?s1)\<lparr> draws := Suc (draws (outside ?s1)) \<rparr> \<rparr>
             else ?s1"
  let ?s3 = "s\<lparr> outside := (outside s)
                   \<lparr> calls := calls (outside s) @ [?m],
                     draws := (if retry_jitter (config s)
                               then Suc (draws (outside s)) else draws (outside s)),
                     sleeps := sleeps (outside s) @ [delay] \<rparr>,
                 metrics := (metrics s)
                   \<lparr> counters := (counters (metrics s))
                       (''retry_attempt'' \<mapsto> counter (metrics s) ''retry_attempt'' + 1) \<rparr> \<rparr>"
  from h call_llm_raising [of e s] obtain x where c: "call_llm e s = (Inl x, ?s1)"
    by blast
  from h have more: "int attempt < retry_max_attempts (config ?s1) - 1"
    by simp
  from h have f: "float_of_int e (retry_exponential_base (config ?s1) ^ attempt) = Some factor"
    by simp
  have d: "backoff_delay e attempt ?s1 = (Inr delay, ?s2)"
    using backoff_delay_value [OF f] by (simp add: Let_def delay_def capped_def)
  have s3: "sleep delay (?s2\<lparr> metrics := increment ''retry_attempt'' 1 (metrics ?s2) \<rparr>) = ?s3"
    by (simp add: sleep_def increment_def)
  note eq = retry_loop_retries [OF c more d, of left last_exception, unfolded s3]
  have further: "\<exists>cs ds.
        calls (outside (snd (retry_loop e attempt (Suc left) last_exception s)))
          = calls (outside s) @ [?m, ?m] @ cs
        \<and> sleeps (outside (snd (retry_loop e attempt (Suc left) last_exception s)))
          = sleeps (outside s) @ delay # ds"
    if range: "int attempt + int (Suc left) = retry_max_attempts (config s)"
  proof -
    from h range obtain left' where left: "left = Suc left'"
      by (cases left) auto
    from retry_loop_first_call [of e "Suc attempt" left' "Some x" ?s3] obtain cs where
      cs: "calls (outside (snd (retry_loop e (Suc attempt) (Suc left') (Some x) ?s3)))
        = calls (outside ?s3) @ llm_model (config ?s3) # cs"
      by blast
    from retry_loop_extends [of e "Suc attempt" "Suc left'" "Some x" ?s3] obtain ds where
      ds: "sleeps (outside (snd (retry_loop e (Suc attempt) (Suc left') (Some x) ?s3)))
        = sleeps (outside ?s3) @ ds"
      by blast
    note eq' = eq [unfolded left]
    from cs ds show ?thesis
      unfolding left eq' by simp
  qed
  show "let capped = min (retry_max_delay (config s))
                      (float_mul e (retry_base_delay (config s)) factor);
           delay =
             (if retry_jitter (config s)
              then float_add e capped
                     (float_add e 0
                        (float_mul e (float_sub e (float_mul e capped float_tenth) 0)
                           (random01 e (draws (outside s)))))
              else capped)
       in (\<exists>x. retry_loop e attempt (Suc left) last_exception s
             = retry_loop e (Suc attempt) left (Some x)
                 (s\<lparr> outside := (outside s)
                       \<lparr> calls := calls (outside s) @ [llm_model (config s)],
                         draws := (if retry_jitter (config s)
                                   then Suc (draws (outside s)) else draws (outside s)),
                         sleeps := sleeps (outside s) @ [delay] \<rparr>,
                     metrics := (metrics s)
                       \<lparr> counters := (counters (metrics s))
                           (''retry_attempt'' \<mapsto> counter (metrics s) ''retry_attempt'' + 1) \<rparr> \<rparr>))
          \<and> (int attempt + int (Suc left) = retry_max_attempts (config s) \<longrightarrow>
               (\<exists>cs ds.
                  calls (outside (snd (retry_loop e attempt (Suc left) last_exception s)))
                    = calls (outside s) @ [llm_model (config s), llm_model (config s)] @ cs
                  \<and> sleeps (outside (snd (retry_loop e attempt (Suc left) last_exception s)))
                    = sleeps (outside s) @ delay # ds))"
    unfolding Let_def capped_def [symmetric] delay_def [symmetric]
    using eq further by blast
next
  assume h: "invocation_raises e (length (calls (outside s))) (llm_model (config s))
        \<and> int attempt < retry_max_attempts (config s) - 1
        \<and> float_of_int e (retry_exponential_base (config s) ^ attempt) = None"
  let ?s1 = "s\<lparr> outside := (outside s)
      \<lparr> calls := calls (outside s) @ [llm_model (config s)] \<rparr> \<rparr>"
  from h call_llm_raising [of e s] obtain x where c: "call_llm e s = (Inl x, ?s1)"
    by blast
  from h have more: "int attempt < retry_max_attempts (config ?s1) - 1"
    by simp
  from h have f: "float_of_int e (retry_exponential_base (config ?s1) ^ attempt) = None"
    by simp
  from retry_loop_overflow [OF c more backoff_delay_overflow [OF f]]
  show "retry_loop e attempt (Suc left) last_exception s = (Inl OverflowError, ?s1)" .
qed

theorem C3_retry_wrapper_witness:
  "fst (call_llm_with_retry_wrapper flaky_env (new_system flaky_env default_config)) = Inr None
   \<and> calls (outside (snd (call_llm_with_retry_wrapper flaky_env
         (new_system flaky_env default_config)))) = [''gpt-4.1-mini'', ''gpt-4.1-mini'']
   \<and> sleeps (outside (snd (call_llm_with_retry_wrapper flaky_env
         (new_system flaky_env default_config)))) = [1]
   \<and> counter (metrics (snd (call_llm_with_retry_wrapper flaky_env
         (new_system flaky_env default_config)))) ''retry_success'' = 1
   \<and> fst (call_llm_with_retry_wrapper still_env (new_system still_env huge_base_config))
       = Inl OverflowError
   \<and> calls (outside (snd (call_llm_with_retry_wrapper still_env
         (new_system still_env huge_base_config)))) = [''gpt-4.1-mini'', ''gpt-4.1-mini'']"
proof -
  let ?m = "''gpt-4.1-mini''"
  let ?prose = "''Sorry, I cannot help.''"
  have cfg: "llm_model default_config = ?m" "retry_max_attempts default_config = 3"
    "retry_exponential_base default_config = 2" "retry_jitter default_config"
    "retry_base_delay default_config = 1" "retry_max_delay default_config = 10"
    "llm_model huge_base_config = ?m" "retry_max_attempts huge_base_config = 3"
    "retry_exponential_base huge_base_config = 2 ^ 1024" "retry_jitter huge_base_config"
    "retry_base_delay huge_base_config = 1" "retry_max_delay huge_base_config = 10"
    by (simp_all add: default_config_def huge_base_config_def)
  have fl: "float_add flaky_env x y = double_round (x + y)"
    "float_sub flaky_env x y = double_round (x - y)"
    "float_mul flaky_env x y = double_round (x * y)"
    "float_of_int flaky_env = double_of_int" "random01 flaky_env n = 0"
    "random01 still_env n = 0" for x y n
    by (simp_all add: flaky_env_def still_env_def)
  have pv: "provider flaky_env n m
      = (if n = 0 then Raises TimeoutError else Content (Some ?prose))"
    "provider still_env n m = Raises ApiError" for n m
    by (simp_all add: flaky_env_def still_env_def)
  have parse: "parse_llm_response flaky_env ?prose = Inr None"
    by (simp add: parse_llm_response_def search_braces_def)
  note T = C3_retry_wrapper

  let ?s = "new_system flaky_env default_config"
  let ?s1 = "?s\<lparr> outside := (outside ?s)\<lparr> calls := [?m], draws := 1, sleeps := [1] \<rparr>,
                metrics := (metrics ?s)\<lparr> counters := [''retry_attempt'' \<mapsto> 1] \<rparr> \<rparr>"
  have st: "calls (outside ?s) = []" "draws (outside ?s) = 0" "sleeps (outside ?s) = []"
    "config ?s = default_config" "counters (metrics ?s) = Map.empty"
    by (simp_all add: new_system_def new_metrics_def)
  have w: "call_llm_with_retry_wrapper flaky_env ?s = retry_loop flaky_env 0 (Suc 2) None ?s"
    using T [where e = flaky_env and s = "?s", THEN conjunct1]
    by (simp add: st cfg eval_nat_numeral)
  have h1: "invocation_raises flaky_env (length (calls (outside ?s))) (llm_model (config ?s))
      \<and> int 0 < retry_max_attempts (config ?s) - 1
      \<and> float_of_int flaky_env (retry_exponential_base (config ?s) ^ 0) = Some 1"
    by (simp add: st cfg invocation_raises_def pv fl double_of_int_small)
  from T [where e = flaky_env and s = "?s" and attempt = 0 and left = 2
        and last_exception = None and factor = 1,
      THEN conjunct2, THEN conjunct2, THEN conjunct1, THEN mp, OF h1]
  obtain x where step1: "retry_loop flaky_env 0 (Suc 2) None ?s
      = retry_loop flaky_env (Suc 0) (Suc 1) (Some x) ?s1"
    by (auto simp add: Let_def st cfg fl counter_def double_round_small double_round_tenth
        eval_nat_numeral)
  have h2: "provider flaky_env (length (calls (outside ?s1))) (llm_model (config ?s1))
        = Content (Some ?prose)
      \<and> parse_llm_response flaky_env ?prose = Inr None"
    by (simp add: st cfg pv parse)
  note step2 = T [where e = flaky_env and s = "?s1" and attempt = "Suc 0" and left = 1
        and last_exception = "Some x" and answer = "?prose" and result = None,
      THEN conjunct2, THEN conjunct1, THEN mp, OF h2]
  have A: "fst (call_llm_with_retry_wrapper flaky_env ?s) = Inr None
      \<and> calls (outside (snd (call_llm_with_retry_wrapper flaky_env ?s))) = [?m, ?m]
      \<and> sleeps (outside (snd (call_llm_with_retry_wrapper flaky_env ?s))) = [1]
      \<and> counter (metrics (snd (call_llm_with_retry_wrapper flaky_env ?s))) ''retry_success''
          = 1"
    unfolding w step1 step2 by (simp add: st cfg counter_def)

  let ?t = "new_system still_env huge_base_config"
  let ?t1 = "?t\<lparr> outside := (outside ?t)\<lparr> calls := [?m], draws := 1, sleeps := [1] \<rparr>,
                metrics := (metrics ?t)\<lparr> counters := [''retry_attempt'' \<mapsto> 1] \<rparr> \<rparr>"
  have tt: "calls (outside ?t) = []" "draws (outside ?t) = 0" "sleeps (outside ?t) = []"
    "config ?t = huge_base_config" "counters (metrics ?t) = Map.empty"
    by (simp_all add: new_system_def new_metrics_def)
  have w': "call_llm_with_retry_wrapper still_env ?t = retry_loop still_env 0 (Suc 2) None ?t"
    using T [where e = still_env and s = "?t", THEN conjunct1]
    by (simp add: tt cfg eval_nat_numeral)
  have k1: "invocation_raises still_env (length (calls (outside ?t))) (llm_model (config ?t))
      \<and> int 0 < retry_max_attempts (config ?t) - 1
      \<and> float_of_int still_env (retry_exponential_base (config ?t) ^ 0) = Some 1"
    by (simp add: tt cfg invocation_raises_def pv still_env_floats double_of_int_small)
  from T [where e = still_env and s = "?t" and attempt = 0 and left = 2
        and last_exception = None and factor = 1,
      THEN conjunct2, THEN conjunct2, THEN conjunct1, THEN mp, OF k1]
  obtain y where step1': "retry_loop still_env 0 (Suc 2) None ?t
      = retry_loop still_env (Suc 0) (Suc 1) (Some y) ?t1"
    by (auto simp add: Let_def tt cfg fl still_env_floats counter_def double_round_small
        double_round_tenth eval_nat_numeral)
  have k2: "invocation_raises still_env (length (calls (outside ?t1))) (llm_model (config ?t1))
      \<and> int (Suc 0) < retry_max_attempts (config ?t1) - 1
      \<and> float_of_int still_env (retry_exponential_base (config ?t1) ^ Suc 0) = None"
    by (simp add: tt cfg invocation_raises_def pv still_env_floats double_of_int_def)
  note step2' = T [where e = still_env and s = "?t1" and attempt = "Suc 0" and left = 1
        and last_exception = "Some y",
      THEN conjunct2, THEN conjunct2, THEN conjunct2, THEN mp, OF k2]
  have B: "fst (call_llm_with_retry_wrapper still_env ?t) = Inl OverflowError
      \<and> calls (outside (snd (call_llm_with_retry_wrapper still_env ?t))) = [?m, ?m]"
    unfolding w' step1' step2' by (simp add: tt cfg)
  from A B show ?thesis by blast
qed

subsection \<open>The fallback chain and the model name\<close>

lemma call_llm_config: "config (snd (call_llm e s)) = config s"
  by (simp add: call_llm_state)

lemma fallback_loop_step_raise:
  assumes "call_llm e (s\<lparr> config := (config s)\<lparr> llm_model := m \<rparr> \<rparr>) = (Inl x, s2)"
  shows "fallback_loop e (m # rest) s = fallback_loop e rest s2"
  using assms by (simp add: Let_def)

lemma fallback_loop_step_return:
  assumes "call_llm e (s\<lparr> config := (config s)\<lparr> llm_model := m \<rparr> \<rparr>) = (Inr res, s2)"
  shows "fallback_loop e (m # rest) s =
     (if truthy_opt res
      then (res, s2\<lparr> config := (config s2)\<lparr> llm_model := llm_model (config s) \<rparr> \<rparr>)
      else fallback_loop e rest
             (s2\<lparr> config := (config s2)\<lparr> llm_model := llm_model (config s) \<rparr> \<rparr>))"
  using assms by (simp add: Let_def)

text \<open>
  The loop reaches the fallback model at position \<open>i\<close> when no earlier invocation has
  succeeded. If none of the invocations it reaches raises, the model name is restored.
\<close>

lemma fallback_loop_restores:
  assumes "\<forall>i<length ms.
      (\<forall>k<i. \<not> invocation_succeeds e (length (calls (outside s)) + k) (ms ! k)) \<longrightarrow>
      \<not> invocation_raises e (length (calls (outside s)) + i) (ms ! i)"
  shows "llm_model (config (snd (fallback_loop e ms s))) = llm_model (config s)"
  using assms
proof (induction ms arbitrary: s)
  case Nil
  show ?case by simp
next
  case (Cons m rest)
  let ?n = "length (calls (outside s))"
  let ?s1 = "s\<lparr> config := (config s)\<lparr> llm_model := m \<rparr> \<rparr>"
  obtain r s2 where c: "call_llm e ?s1 = (r, s2)" by (cases "call_llm e ?s1")
  have s2: "s2 = ?s1\<lparr> outside := (outside ?s1)\<lparr> calls := calls (outside ?s1) @ [m] \<rparr> \<rparr>"
    using call_llm_state [of e ?s1] c by simp
  from Cons.prems [rule_format, of 0] have "\<not> invocation_raises e ?n m"
    by simp
  with call_llm_raises [of e ?s1] c obtain res where r: "r = Inr res"
    by (cases r) auto
  let ?s3 = "s2\<lparr> config := (config s2)\<lparr> llm_model := llm_model (config s) \<rparr> \<rparr>"
  have m3: "llm_model (config ?s3) = llm_model (config s)"
    by simp
  have n3: "length (calls (outside s2)) = Suc ?n"
    by (simp add: s2)
  note step = fallback_loop_step_return [OF c [unfolded r], of rest]
  show ?case
  proof (cases "truthy_opt res")
    case True
    with step show ?thesis by simp
  next
    case False
    with step have eq: "fallback_loop e (m # rest) s = fallback_loop e rest ?s3"
      by simp
    from False call_llm_succeeds [of e ?s1] c r
    have ns: "\<not> invocation_succeeds e ?n m"
      by simp
    have "\<forall>i<length rest.
        (\<forall>k<i. \<not> invocation_succeeds e (length (calls (outside ?s3)) + k) (rest ! k)) \<longrightarrow>
        \<not> invocation_raises e (length (calls (outside ?s3)) + i) (rest ! i)"
    proof (intro allI impI)
      fix i
      assume i: "i < length rest"
        and g: "\<forall>k<i. \<not> invocation_succeeds e (length (calls (outside ?s3)) + k) (rest ! k)"
      have "\<forall>k<Suc i. \<not> invocation_succeeds e (?n + k) ((m # rest) ! k)"
      proof (intro allI impI)
        fix k assume k: "k < Suc i"
        show "\<not> invocation_succeeds e (?n + k) ((m # rest) ! k)"
        proof (cases k)
          case 0
          with ns show ?thesis by simp
        next
          case (Suc k')
          with k g [rule_format, of k'] show ?thesis by (simp add: n3)
        qed
      qed
      with Cons.prems [rule_format, of "Suc i"] i
      show "\<not> invocation_raises e (length (calls (outside ?s3)) + i) (rest ! i)"
        by (simp add: n3)
    qed
    from Cons.IH [OF this] m3 show ?thesis unfolding eq by simp
  qed
qed

text \<open>
  If the loop reaches position \<open>j\<close>, the invocation there raises and none of the
  invocations the loop reaches after it raises, the model name stays at that of \<open>j\<close>.
\<close>

lemma fallback_loop_last_raiser:
  assumes "j < length ms"
    and "\<forall>k<j. \<not> invocation_succeeds e (length (calls (outside s)) + k) (ms ! k)"
    and "invocation_raises e (length (calls (outside s)) + j) (ms ! j)"
    and "\<forall>i. j < i \<and> i < length ms
           \<and> (\<forall>k<i. \<not> invocation_succeeds e (length (calls (outside s)) + k) (ms ! k)) \<longrightarrow>
           \<not> invocation_raises e (length (calls (outside s)) + i) (ms ! i)"
  shows "llm_model (config (snd (fallback_loop e ms s))) = ms ! j"
  using assms
proof (induction ms arbitrary: s j)
  case Nil
  then show ?case by simp
next
  case (Cons m rest)
  let ?n = "length (calls (outside s))"
  let ?s1 = "s\<lparr> config := (config s)\<lparr> llm_model := m \<rparr> \<rparr>"
  obtain r s2 where c: "call_llm e ?s1 = (r, s2)" by (cases "call_llm e ?s1")
  have s2: "s2 = ?s1\<lparr> outside := (outside ?s1)\<lparr> calls := calls (outside ?s1) @ [m] \<rparr> \<rparr>"
    using call_llm_state [of e ?s1] c by simp
  let ?s3 = "s2\<lparr> config := (config s2)\<lparr> llm_model := llm_model (config s) \<rparr> \<rparr>"
  have n2: "length (calls (outside s2)) = Suc ?n"
    by (simp add: s2)
  have n3: "length (calls (outside ?s3)) = Suc ?n"
    by (simp add: n2)
  have m2: "llm_model (config s2) = m"
    by (simp add: s2)
  show ?case
  proof (cases j)
    case 0
    with Cons.prems have raises: "invocation_raises e ?n m"
      by simp
    with call_llm_raises [of e ?s1] c obtain x where r: "r = Inl x"
      by (cases r) auto
    note eq = fallback_loop_step_raise [OF c [unfolded r], of rest]
    have "\<forall>i<length rest.
        (\<forall>k<i. \<not> invocation_succeeds e (length (calls (outside s2)) + k) (rest ! k)) \<longrightarrow>
        \<not> invocation_raises e (length (calls (outside s2)) + i) (rest ! i)"
    proof (intro allI impI)
      fix i
      assume i: "i < length rest"
        and g: "\<forall>k<i. \<not> invocation_succeeds e (length (calls (outside s2)) + k) (rest ! k)"
      have "\<forall>k<Suc i. \<not> invocation_succeeds e (?n + k) ((m # rest) ! k)"
      proof (intro allI impI)
        fix k assume k: "k < Suc i"
        show "\<not> invocation_succeeds e (?n + k) ((m # rest) ! k)"
        proof (cases k)
          case 0
          with raises raises_not_succeeds [of e ?n m] show ?thesis by simp
        next
          case (Suc k')
          with k g [rule_format, of k'] show ?thesis by (simp add: n2)
        qed
      qed
      with Cons.prems(4) [rule_format, of "Suc i"] i 0
      show "\<not> invocation_raises e (length (calls (outside s2)) + i) (rest ! i)"
        by (simp add: n2)
    qed
    from fallback_loop_restores [OF this] m2 0 show ?thesis unfolding eq by simp
  next
    case (Suc j')
    from Cons.prems(2) [rule_format, of 0] Suc
    have ns: "\<not> invocation_succeeds e ?n m"
      by simp
    have ex: "\<exists>s'. fallback_loop e (m # rest) s = fallback_loop e rest s'
        \<and> length (calls (outside s')) = Suc ?n"
    proof (cases r)
      case (Inl x)
      from fallback_loop_step_raise [OF c [unfolded Inl], of rest] n2 show ?thesis
        by blast
    next
      case (Inr res)
      with call_llm_succeeds [of e ?s1] c ns have "\<not> truthy_opt res"
        by simp
      with fallback_loop_step_return [OF c [unfolded Inr], of rest]
      have "fallback_loop e (m # rest) s = fallback_loop e rest ?s3"
        by simp
      with n3 show ?thesis by blast
    qed
    then obtain s' where eq: "fallback_loop e (m # rest) s = fallback_loop e rest s'"
      and n': "length (calls (outside s')) = Suc ?n"
      by blast
    have h1: "j' < length rest" using Cons.prems(1) Suc by simp
    have h2: "\<forall>k<j'. \<not> invocation_succeeds e (length (calls (outside s')) + k) (rest ! k)"
    proof (intro allI impI)
      fix k assume "k < j'"
      with Cons.prems(2) [rule_format, of "Suc k"] Suc show
        "\<not> invocation_succeeds e (length (calls (outside s')) + k) (rest ! k)"
        by (simp add: n')
    qed
    have h3: "invocation_raises e (length (calls (outside s')) + j') (rest ! j')"
      using Cons.prems(3) Suc by (simp add: n')
    have h4: "\<forall>i. j' < i \<and> i < length rest
           \<and> (\<forall>k<i. \<not> invocation_succeeds e (length (calls (outside s')) + k) (rest ! k)) \<longrightarrow>
           \<not> invocation_raises e (length (calls (outside s')) + i) (rest ! i)"
    proof (intro allI impI)
      fix i
      assume a: "j' < i \<and> i < length rest
           \<and> (\<forall>k<i. \<not> invocation_succeeds e (length (calls (outside s')) + k) (rest ! k))"
      have "\<forall>k<Suc i. \<not> invocation_succeeds e (?n + k) ((m # rest) ! k)"
      proof (intro allI impI)
        fix k assume k: "k < Suc i"
        show "\<not> invocation_succeeds e (?n + k) ((m # rest) ! k)"
        proof (cases k)
          case 0
          with ns show ?thesis by simp
        next
          case (Suc k')
          with k a show ?thesis by (simp add: n')
        qed
      qed
      with Cons.prems(4) [rule_format, of "Suc i"] a Suc
      show "\<not> invocation_raises e (length (calls (outside s')) + i) (rest ! i)"
        by (simp add: n')
    qed
    from Cons.IH [OF h1 h2 h3 h4] Suc show ?thesis unfolding eq by simp
  qed
qed

text \<open>
  Claim C10 as stated fails when more than one invocation raises: \<open>llm_model\<close> is not
  left at the fallback model whose invocation raised first. With the default
  configuration and a provider that is down, both fallback models are invoked, both
  invocations raise, and the model name ends as the second fallback model, not the first.
\<close>

theorem C10_second_raiser_remains:
  "fallback_models (config (new_system still_env default_config))
     = [''gpt-4.1-nano'', ''gemini-2.5-flash'']
   \<and> invocation_raises still_env 0 ''gpt-4.1-nano''
   \<and> calls (outside (snd (fallback_translation still_env
        (new_system still_env default_config)))) = [''gpt-4.1-nano'', ''gemini-2.5-flash'']
   \<and> llm_model (config (snd (fallback_translation still_env
        (new_system still_env default_config)))) = ''gemini-2.5-flash''"
  by (simp add: fallback_translation_def call_llm_def invocation_raises_def Let_def
      new_system_def default_config_def still_env_def)

text \<open>
  Claim C10, amended: \<^verbatim>\<open>_fallback_translation\<close> puts the model name back only after an
  invocation that returns, and then to the name it found, not to the configured primary.
  The loop invokes a fallback model when no earlier invocation has succeeded. If none of
  the invocations made raises, \<open>llm_model\<close> is afterwards what it was before. If
  invocations made raise, \<open>llm_model\<close> is left at the fallback model of the last of them
  when the call is over, and the next call of the provider is made with that name.
\<close>

theorem C10_fallback_leaves_model:
  "((\<forall>i<length (fallback_models (config s)).
        (\<forall>k<i. \<not> invocation_succeeds e (length (calls (outside s)) + k)
                     (fallback_models (config s) ! k)) \<longrightarrow>
        \<not> invocation_raises e (length (calls (outside s)) + i)
             (fallback_models (config s) ! i)) \<longrightarrow>
      llm_model (config (snd (fallback_translation e s))) = llm_model (config s))
   \<and> (\<forall>j<length (fallback_models (config s)).
        (\<forall>k<j. \<not> invocation_succeeds e (length (calls (outside s)) + k)
                     (fallback_models (config s) ! k))
        \<and> invocation_raises e (length (calls (outside s)) + j) (fallback_models (config s) ! j)
        \<and> (\<forall>i. j < i \<and> i < length (fallback_models (config s))
               \<and> (\<forall>k<i. \<not> invocation_succeeds e (length (calls (outside s)) + k)
                            (fallback_models (config s) ! k)) \<longrightarrow>
               \<not> invocation_raises e (length (calls (outside s)) + i)
                    (fallback_models (config s) ! i)) \<longrightarrow>
          llm_model (config (snd (fallback_translation e s))) = fallback_models (config s) ! j
        \<and> calls (outside (snd (call_llm e (snd (fallback_translation e s)))))
            = calls (outside (snd (fallback_translation e s)))
                @ [fallback_models (config s) ! j])"
proof (intro conjI allI impI)
  let ?s = "s\<lparr> metrics := increment ''fallback_used'' 1 (metrics s) \<rparr>"
  let ?ms = "fallback_models (config s)"
  assume "\<forall>i<length ?ms.
        (\<forall>k<i. \<not> invocation_succeeds e (length (calls (outside s)) + k) (?ms ! k)) \<longrightarrow>
        \<not> invocation_raises e (length (calls (outside s)) + i) (?ms ! i)"
  then have "\<forall>i<length ?ms.
        (\<forall>k<i. \<not> invocation_succeeds e (length (calls (outside ?s)) + k) (?ms ! k)) \<longrightarrow>
        \<not> invocation_raises e (length (calls (outside ?s)) + i) (?ms ! i)"
    by simp
  from fallback_loop_restores [OF this]
  show "llm_model (config (snd (fallback_translation e s))) = llm_model (config s)"
    by (simp add: fallback_translation_def)
next
  fix j
  let ?s = "s\<lparr> metrics := increment ''fallback_used'' 1 (metrics s) \<rparr>"
  let ?ms = "fallback_models (config s)"
  assume j: "j < length ?ms"
    and h: "(\<forall>k<j. \<not> invocation_succeeds e (length (calls (outside s)) + k) (?ms ! k))
        \<and> invocation_raises e (length (calls (outside s)) + j) (?ms ! j)
        \<and> (\<forall>i. j < i \<and> i < length ?ms
               \<and> (\<forall>k<i. \<not> invocation_succeeds e (length (calls (outside s)) + k) (?ms ! k)) \<longrightarrow>
               \<not> invocation_raises e (length (calls (outside s)) + i) (?ms ! i))"
  have h2: "\<forall>k<j. \<not> invocation_succeeds e (length (calls (outside ?s)) + k) (?ms ! k)"
    using h by simp
  have h3: "invocation_raises e (length (calls (outside ?s)) + j) (?ms ! j)"
    using h by simp
  have h4: "\<forall>i. j < i \<and> i < length ?ms
           \<and> (\<forall>k<i. \<not> invocation_succeeds e (length (calls (outside ?s)) + k) (?ms ! k)) \<longrightarrow>
           \<not> invocation_raises e (length (calls (outside ?s)) + i) (?ms ! i)"
    using h by simp
  from fallback_loop_last_raiser [OF j h2 h3 h4]
  show m: "llm_model (config (snd (fallback_translation e s))) = ?ms ! j"
    by (simp add: fallback_translation_def)
  show "calls (outside (snd (call_llm e (snd (fallback_translation e s)))))
      = calls (outside (snd (fallback_translation e s))) @ [?ms ! j]"
    by (simp add: call_llm_state m)
qed

lemma ls_reply_parses:
  "parse_llm_response nano_only_env ls_reply = Inr (Some ls_result)"
  "parse_llm_response primary_only_env ls_reply = Inr (Some ls_result)"
  "truthy ls_result"
  by (simp_all add: parse_llm_response_def search_braces_def ls_reply_def ls_result_def
      nano_only_env_def primary_only_env_def)

theorem C10_fallback_leaves_model_witness:
  "llm_model (config (snd (fallback_translation prose_env
       (new_system prose_env default_config)))) = ''gpt-4.1-mini''
   \<and> llm_model (config (snd (fallback_translation nano_only_env
       (new_system nano_only_env default_config)))) = ''gpt-4.1-mini''
   \<and> llm_model (config (snd (fallback_translation flaky_env
       (new_system flaky_env default_config)))) = ''gpt-4.1-nano''
   \<and> calls (outside (snd (call_llm flaky_env (snd (fallback_translation flaky_env
       (new_system flaky_env default_config))))))
     = calls (outside (snd (fallback_translation flaky_env
         (new_system flaky_env default_config)))) @ [''gpt-4.1-nano'']"
proof -
  have ms: "fallback_models (config (new_system e default_config))
      = [''gpt-4.1-nano'', ''gemini-2.5-flash'']"
    "llm_model (config (new_system e default_config)) = ''gpt-4.1-mini''"
    "calls (outside (new_system e default_config)) = []" for e
    by (simp_all add: new_system_def default_config_def)
  have prose: "\<not> invocation_raises prose_env n m" for n m
    by (simp add: invocation_raises_def prose_env_def still_env_def parse_llm_response_def
        search_braces_def)
  have pn: "provider nano_only_env n m
      = (if m = ''gpt-4.1-nano'' then Content (Some ls_reply) else Raises ApiError)" for n m
    by (simp add: nano_only_env_def)
  have nano: "invocation_succeeds nano_only_env n ''gpt-4.1-nano''"
    "\<not> invocation_raises nano_only_env n ''gpt-4.1-nano''" for n
    by (simp_all add: invocation_succeeds_def invocation_raises_def pn ls_reply_parses)
  have flaky: "invocation_raises flaky_env 0 m"
    "\<not> invocation_raises flaky_env (Suc n) m" for n m
    by (simp_all add: invocation_raises_def flaky_env_def still_env_def parse_llm_response_def
        search_braces_def)
  have a: "\<forall>i<length (fallback_models (config (new_system prose_env default_config))).
        (\<forall>k<i. \<not> invocation_succeeds prose_env
                    (length (calls (outside (new_system prose_env default_config))) + k)
                    (fallback_models (config (new_system prose_env default_config)) ! k)) \<longrightarrow>
        \<not> invocation_raises prose_env
             (length (calls (outside (new_system prose_env default_config))) + i)
             (fallback_models (config (new_system prose_env default_config)) ! i)"
    by (simp add: prose)
  have b: "\<forall>i<length (fallback_models (config (new_system nano_only_env default_config))).
        (\<forall>k<i. \<not> invocation_succeeds nano_only_env
                    (length (calls (outside (new_system nano_only_env default_config))) + k)
                    (fallback_models (config (new_system nano_only_env default_config)) ! k)) \<longrightarrow>
        \<not> invocation_raises nano_only_env
             (length (calls (outside (new_system nano_only_env default_config))) + i)
             (fallback_models (config (new_system nano_only_env default_config)) ! i)"
  proof (intro allI impI)
    fix i
    assume i: "i < length (fallback_models (config (new_system nano_only_env default_config)))"
      and g: "\<forall>k<i. \<not> invocation_succeeds nano_only_env
                    (length (calls (outside (new_system nano_only_env default_config))) + k)
                    (fallback_models (config (new_system nano_only_env default_config)) ! k)"
    have "i = 0"
    proof (rule ccontr)
      assume "i \<noteq> 0"
      with g [rule_format, of 0] nano(1) [of 0] show False
        by (simp add: ms)
    qed
    with nano(2) [of 0] show "\<not> invocation_raises nano_only_env
             (length (calls (outside (new_system nano_only_env default_config))) + i)
             (fallback_models (config (new_system nano_only_env default_config)) ! i)"
      by (simp add: ms)
  qed
  have c1: "\<forall>k<0. \<not> invocation_succeeds flaky_env
                     (length (calls (outside (new_system flaky_env default_config))) + k)
                     (fallback_models (config (new_system flaky_env default_config)) ! k)"
    by simp
  have c2: "invocation_raises flaky_env
          (length (calls (outside (new_system flaky_env default_config))) + 0)
          (fallback_models (config (new_system flaky_env default_config)) ! 0)"
    by (simp add: ms flaky)
  have c3: "\<forall>i. 0 < i \<and> i < length (fallback_models (config (new_system flaky_env default_config)))
               \<and> (\<forall>k<i. \<not> invocation_succeeds flaky_env
                     (length (calls (outside (new_system flaky_env default_config))) + k)
                     (fallback_models (config (new_system flaky_env default_config)) ! k)) \<longrightarrow>
               \<not> invocation_raises flaky_env
                    (length (calls (outside (new_system flaky_env default_config))) + i)
                    (fallback_models (config (new_system flaky_env default_config)) ! i)"
  proof (intro allI impI)
    fix i
    assume "0 < i \<and> i < length (fallback_models (config (new_system flaky_env default_config)))
               \<and> (\<forall>k<i. \<not> invocation_succeeds flaky_env
                     (length (calls (outside (new_system flaky_env default_config))) + k)
                     (fallback_models (config (new_system flaky_env default_config)) ! k))"
    then obtain i' where "i = Suc i'" by (cases i) auto
    with flaky(2) [of i'] show "\<not> invocation_raises flaky_env
                    (length (calls (outside (new_system flaky_env default_config))) + i)
                    (fallback_models (config (new_system flaky_env default_config)) ! i)"
      by (simp add: ms)
  qed
  note c = conjI [OF c1 conjI [OF c2 c3]]
  have j0: "0 < length (fallback_models (config (new_system flaky_env default_config)))"
    by (simp add: ms)
  from C10_fallback_leaves_model [of "new_system prose_env default_config" prose_env,
      THEN conjunct1, THEN mp, OF a]
  have A: "llm_model (config (snd (fallback_translation prose_env
       (new_system prose_env default_config)))) = ''gpt-4.1-mini''"
    by (simp add: ms)
  from C10_fallback_leaves_model [of "new_system nano_only_env default_config" nano_only_env,
      THEN conjunct1, THEN mp, OF b]
  have B: "llm_model (config (snd (fallback_translation nano_only_env
       (new_system nano_only_env default_config)))) = ''gpt-4.1-mini''"
    by (simp add: ms)
  from C10_fallback_leaves_model [of "new_system flaky_env default_config" flaky_env,
      THEN conjunct2, THEN spec, THEN mp, OF j0, THEN mp, OF c]
  have C: "llm_model (config (snd (fallback_translation flaky_env
         (new_system flaky_env default_config)))) = ''gpt-4.1-nano''
     \<and> calls (outside (snd (call_llm flaky_env (snd (fallback_translation flaky_env
         (new_system flaky_env default_config))))))
       = calls (outside (snd (fallback_translation flaky_env
           (new_system flaky_env default_config)))) @ [''gpt-4.1-nano'']"
    by (simp add: ms)
  from A B C show ?thesis by blast
qed

subsection \<open>What translate\_command hands back\<close>

lemma fallback_loop_all_fail:
  assumes "\<forall>i<length ms. \<not> invocation_succeeds e (length (calls (outside s)) + i) (ms ! i)"
  shows "fst (fallback_loop e ms s) = Some degraded_result"
  using assms
proof (induction ms arbitrary: s)
  case Nil
  show ?case by simp
next
  case (Cons m rest)
  let ?n = "length (calls (outside s))"
  let ?s1 = "s\<lparr> config := (config s)\<lparr> llm_model := m \<rparr> \<rparr>"
  obtain r s2 where c: "call_llm e ?s1 = (r, s2)" by (cases "call_llm e ?s1")
  have s2: "s2 = ?s1\<lparr> outside := (outside ?s1)\<lparr> calls := calls (outside ?s1) @ [m] \<rparr> \<rparr>"
    using call_llm_state [of e ?s1] c by simp
  have n2: "length (calls (outside s2)) = Suc ?n"
    by (simp add: s2)
  from Cons.prems [rule_format, of 0] have ns: "\<not> invocation_succeeds e ?n m"
    by simp
  have rest: "\<forall>i<length rest. \<not> invocation_succeeds e (Suc ?n + i) (rest ! i)"
  proof (intro allI impI)
    fix i assume "i < length rest"
    with Cons.prems [rule_format, of "Suc i"]
    show "\<not> invocation_succeeds e (Suc ?n + i) (rest ! i)" by simp
  qed
  show ?case
  proof (cases r)
    case (Inl x)
    from rest have "\<forall>i<length rest.
        \<not> invocation_succeeds e (length (calls (outside s2)) + i) (rest ! i)"
      by (simp add: n2)
    from Cons.IH [OF this] fallback_loop_step_raise [OF c [unfolded Inl], of rest]
    show ?thesis by simp
  next
    case (Inr res)
    let ?s3 = "s2\<lparr> config := (config s2)\<lparr> llm_model := llm_model (config s) \<rparr> \<rparr>"
    from Inr call_llm_succeeds [of e ?s1] c ns have nt: "\<not> truthy_opt res"
      by simp
    from rest have "\<forall>i<length rest.
        \<not> invocation_succeeds e (length (calls (outside ?s3)) + i) (rest ! i)"
      by (simp add: n2)
    from Cons.IH [OF this] fallback_loop_step_return [OF c [unfolded Inr], of rest] nt
    show ?thesis by simp
  qed
qed

lemma fallback_translation_all_fail:
  assumes "\<forall>i<length (fallback_models (config s)).
      \<not> invocation_succeeds e (length (calls (outside s)) + i) (fallback_models (config s) ! i)"
  shows "fst (fallback_translation e s) = Some degraded_result"
proof -
  let ?s = "s\<lparr> metrics := increment ''fallback_used'' 1 (metrics s) \<rparr>"
  from assms have "\<forall>i<length (fallback_models (config s)).
      \<not> invocation_succeeds e (length (calls (outside ?s)) + i)
           (fallback_models (config s) ! i)"
    by simp
  from fallback_loop_all_fail [OF this] show ?thesis
    by (simp add: fallback_translation_def)
qed

text \<open>
  An attempt that raises, with its delay computable if one is due, is followed by the next
  iteration of the loop; only the provider call is added to the calls made.
\<close>

lemma retry_loop_raise_step:
  assumes "invocation_raises e (length (calls (outside s))) (llm_model (config s))"
    and "int a < retry_max_attempts (config s) - 1 \<longrightarrow>
           float_of_int e (retry_exponential_base (config s) ^ a) \<noteq> None"
  shows "\<exists>x s3. retry_loop e a (Suc left) l s = retry_loop e (Suc a) left (Some x) s3
      \<and> calls (outside s3) = calls (outside s) @ [llm_model (config s)]
      \<and> config s3 = config s"
proof -
  let ?m = "llm_model (config s)"
  let ?s1 = "s\<lparr> outside := (outside s)\<lparr> calls := calls (outside s) @ [?m] \<rparr> \<rparr>"
  from assms(1) call_llm_raising [of e s] obtain x where c: "call_llm e s = (Inl x, ?s1)"
    by blast
  show ?thesis
  proof (cases "int a < retry_max_attempts (config ?s1) - 1")
    case True
    with assms(2)
    have "float_of_int e (retry_exponential_base (config ?s1) ^ a) \<noteq> None"
      by simp
    then obtain factor where
      f: "float_of_int e (retry_exponential_base (config ?s1) ^ a) = Some factor"
      by auto
    obtain d s2 where d: "backoff_delay e a ?s1 = (d, s2)"
      by (cases "backoff_delay e a ?s1")
    from backoff_delay_value [OF f] d obtain delay where dl: "d = Inr delay"
      by (auto simp: Let_def split: if_splits)
    have s2: "calls (outside s2) = calls (outside ?s1)" "config s2 = config ?s1"
      using backoff_delay_frame [of e a ?s1] d by simp_all
    let ?s3 = "sleep delay (s2\<lparr> metrics := increment ''retry_attempt'' 1 (metrics s2) \<rparr>)"
    from retry_loop_retries [OF c True d [unfolded dl], of left l] s2
    have "retry_loop e a (Suc left) l s = retry_loop e (Suc a) left (Some x) ?s3
      \<and> calls (outside ?s3) = calls (outside s) @ [?m] \<and> config ?s3 = config s"
      by (simp add: sleep_def)
    then show ?thesis by blast
  next
    case False
    let ?s3 = "?s1\<lparr> metrics := increment ''retry_exhausted'' 1 (metrics ?s1) \<rparr>"
    from retry_loop_last [OF c False, of left l]
    have "retry_loop e a (Suc left) l s = retry_loop e (Suc a) left (Some x) ?s3
      \<and> calls (outside ?s3) = calls (outside s) @ [?m] \<and> config ?s3 = config s"
      by simp
    then show ?thesis by blast
  qed
qed

text \<open>
  When every attempt of the loop raises and each delay can be computed, the loop makes
  all its calls with the one model and ends by raising.
\<close>

lemma retry_loop_exhausted:
  assumes "\<forall>k<left. invocation_raises e (length (calls (outside s)) + k) (llm_model (config s))"
    and "\<forall>k. k < left \<and> int (a + k) < retry_max_attempts (config s) - 1 \<longrightarrow>
           float_of_int e (retry_exponential_base (config s) ^ (a + k)) \<noteq> None"
  shows "isl (fst (retry_loop e a left l s))
    \<and> calls (outside (snd (retry_loop e a left l s)))
        = calls (outside s) @ replicate left (llm_model (config s))
    \<and> config (snd (retry_loop e a left l s)) = config s"
  using assms
proof (induction left arbitrary: a l s)
  case 0
  show ?case by (simp add: retry_loop.simps split: option.splits)
next
  case (Suc left)
  let ?m = "llm_model (config s)"
  from Suc.prems(1) [rule_format, of 0]
  have r0: "invocation_raises e (length (calls (outside s))) ?m"
    by simp
  from Suc.prems(2) [rule_format, of 0]
  have d0: "int a < retry_max_attempts (config s) - 1 \<longrightarrow>
      float_of_int e (retry_exponential_base (config s) ^ a) \<noteq> None"
    by simp
  from retry_loop_raise_step [OF r0 d0, of left l]
  obtain x s3 where eq: "retry_loop e a (Suc left) l s
        = retry_loop e (Suc a) left (Some x) s3"
    and c3: "calls (outside s3) = calls (outside s) @ [?m]"
    and g3: "config s3 = config s"
    by blast
  have p1: "\<forall>k<left. invocation_raises e (length (calls (outside s3)) + k)
      (llm_model (config s3))"
  proof (intro allI impI)
    fix k assume "k < left"
    with Suc.prems(1) [rule_format, of "Suc k"]
    show "invocation_raises e (length (calls (outside s3)) + k) (llm_model (config s3))"
      by (simp add: c3 g3)
  qed
  have p2: "\<forall>k. k < left \<and> int (Suc a + k) < retry_max_attempts (config s3) - 1 \<longrightarrow>
      float_of_int e (retry_exponential_base (config s3) ^ (Suc a + k)) \<noteq> None"
  proof (intro allI impI)
    fix k assume "k < left \<and> int (Suc a + k) < retry_max_attempts (config s3) - 1"
    with Suc.prems(2) [rule_format, of "Suc k"]
    show "float_of_int e (retry_exponential_base (config s3) ^ (Suc a + k)) \<noteq> None"
      by (simp add: g3)
  qed
  from Suc.IH [OF p1 p2, of "Some x"] show ?case
    unfolding eq by (simp add: c3 g3 replicate_append_same)
qed

text \<open>
  When the attempts before the \<open>j\<close>-th raise, with computable delays, and the \<open>j\<close>-th
  call returns, the loop ends with what that call returned.
\<close>

lemma retry_loop_returns_after:
  assumes "j < left"
    and "\<forall>k<j. invocation_raises e (length (calls (outside s)) + k) (llm_model (config s))"
    and "\<forall>k. k < j \<and> int (a + k) < retry_max_attempts (config s) - 1 \<longrightarrow>
           float_of_int e (retry_exponential_base (config s) ^ (a + k)) \<noteq> None"
    and "provider e (length (calls (outside s)) + j) (llm_model (config s))
           = Content (Some answer)"
    and "parse_llm_response e answer = Inr r"
  shows "fst (retry_loop e a left l s) = Inr r
    \<and> calls (outside (snd (retry_loop e a left l s)))
        = calls (outside s) @ replicate (Suc j) (llm_model (config s))
    \<and> config (snd (retry_loop e a left l s)) = config s"
  using assms
proof (induction j arbitrary: a left l s)
  case 0
  from 0(1) obtain left' where left: "left = Suc left'" by (cases left) auto
  from 0(4) have "provider e (length (calls (outside s))) (llm_model (config s))
      = Content (Some answer)"
    by simp
  from retry_loop_returns [OF call_llm_returns [OF this 0(5)], of a left' l]
  show ?case by (simp add: left)
next
  case (Suc j)
  let ?m = "llm_model (config s)"
  from Suc.prems(1) obtain left' where left: "left = Suc left'" by (cases left) auto
  from Suc.prems(2) [rule_format, of 0]
  have r0: "invocation_raises e (length (calls (outside s))) ?m"
    by simp
  from Suc.prems(3) [rule_format, of 0]
  have d0: "int a < retry_max_attempts (config s) - 1 \<longrightarrow>
      float_of_int e (retry_exponential_base (config s) ^ a) \<noteq> None"
    by simp
  from retry_loop_raise_step [OF r0 d0, of left' l]
  obtain x s3 where eq: "retry_loop e a (Suc left') l s
        = retry_loop e (Suc a) left' (Some x) s3"
    and c3: "calls (outside s3) = calls (outside s) @ [?m]"
    and g3: "config s3 = config s"
    by blast
  have p0: "j < left'" using Suc.prems(1) left by simp
  have p1: "\<forall>k<j. invocation_raises e (length (calls (outside s3)) + k)
      (llm_model (config s3))"
  proof (intro allI impI)
    fix k assume "k < j"
    with Suc.prems(2) [rule_format, of "Suc k"]
    show "invocation_raises e (length (calls (outside s3)) + k) (llm_model (config s3))"
      by (simp add: c3 g3)
  qed
  have p2: "\<forall>k. k < j \<and> int (Suc a + k) < retry_max_attempts (config s3) - 1 \<longrightarrow>
      float_of_int e (retry_exponential_base (config s3) ^ (Suc a + k)) \<noteq> None"
  proof (intro allI impI)
    fix k assume "k < j \<and> int (Suc a + k) < retry_max_attempts (config s3) - 1"
    with Suc.prems(3) [rule_format, of "Suc k"]
    show "float_of_int e (retry_exponential_base (config s3) ^ (Suc a + k)) \<noteq> None"
      by (simp add: g3)
  qed
  have p3: "provider e (length (calls (outside s3)) + j) (llm_model (config s3))
      = Content (Some answer)"
    using Suc.prems(4) by (simp add: c3 g3)
  from Suc.IH [OF p0 p1 p2 p3 Suc.prems(5), where l = "Some x"] show ?case
    unfolding left eq by (simp add: c3 g3 replicate_append_same)
qed

lemma config_kept:
  "config (snd (now e s)) = config s"
  "config (snd (allow_request e s)) = config s"
  "config (snd (cache_get e key s)) = config s"
  "config (snd (should_allow_request e s)) = config s"
  "config (record_failure e s) = config s"
  by (simp_all add: now_def allow_request_def cache_get_def is_expired_def
      should_allow_request_def transition_to_half_open_def transition_to_open_def
      record_failure_def Let_def split: option.splits prod.splits)

lemma calls_kept:
  "calls (outside (snd (now e s))) = calls (outside s)"
  "calls (outside (snd (allow_request e s))) = calls (outside s)"
  "calls (outside (snd (cache_get e key s))) = calls (outside s)"
  "calls (outside (snd (should_allow_request e s))) = calls (outside s)"
  "calls (outside (record_failure e s)) = calls (outside s)"
  by (simp_all add: now_def allow_request_def cache_get_def is_expired_def
      should_allow_request_def transition_to_half_open_def transition_to_open_def
      record_failure_def Let_def split: option.splits prod.splits)

lemma translate_command_returns:
  "\<exists>r. fst (translate_command e user_input context s) = Inr r"
  by (simp add: translate_command_def Let_def split: prod.splits sum.splits)

lemma translate_command_denied:
  assumes "\<not> fst (allow_request e (snd (now e s)))"
  shows "fst (translate_command e user_input context s) = Inr None"
proof -
  obtain a s1 where a: "allow_request e (snd (now e s)) = (a, s1)"
    by (cases "allow_request e (snd (now e s))")
  with assms show ?thesis
    by (simp add: translate_command_def translate_body_def now_def)
qed

text \<open>
  The state in which the breaker is asked, for a call that the limiter admits and that
  the cache cannot serve: the configuration and the calls made are as at the start.
\<close>

lemma before_breaker:
  "config (snd (cache_get e key (snd (allow_request e (snd (now e s)))))) = config s"
  "calls (outside (snd (cache_get e key (snd (allow_request e (snd (now e s)))))))
     = calls (outside s)"
  by (simp_all add: config_kept calls_kept)

lemma translate_command_open:
  assumes admitted: "fst (allow_request e (snd (now e s)))"
    and miss: "\<not> truthy_opt (fst (cache_get e
        (generate_cache_key e user_input (json_dumps e context))
        (snd (allow_request e (snd (now e s))))))"
    and denies: "\<not> fst (should_allow_request e (snd (cache_get e
        (generate_cache_key e user_input (json_dumps e context))
        (snd (allow_request e (snd (now e s)))))))"
    and fallbacks: "\<forall>i<length (fallback_models (config s)).
        \<not> invocation_succeeds e (length (calls (outside s)) + i)
             (fallback_models (config s) ! i)"
  shows "fst (translate_command e user_input context s) = Inr (Some degraded_result)"
proof -
  obtain t s0 where n: "now e s = (t, s0)" by (cases "now e s")
  obtain a s1 where a: "allow_request e s0 = (a, s1)" by (cases "allow_request e s0")
  let ?key = "generate_cache_key e user_input (json_dumps e context)"
  obtain cr s2 where g: "cache_get e ?key s1 = (cr, s2)" by (cases "cache_get e ?key s1")
  obtain ad s3 where b: "should_allow_request e s2 = (ad, s3)"
    by (cases "should_allow_request e s2")
  from admitted n a have a': "a" by simp
  from miss n a g have cr: "\<not> truthy_opt cr" by simp
  from denies n a g b have ad: "\<not> ad" by simp
  have s2: "config s2 = config s" "calls (outside s2) = calls (outside s)"
    using before_breaker [of e ?key s] n a g by simp_all
  have s3: "config s3 = config s" "calls (outside s3) = calls (outside s)"
    using config_kept(4) [of e s2] calls_kept(4) [of e s2] b s2 by simp_all
  obtain fr s5 where f: "fallback_translation e s3 = (fr, s5)"
    by (cases "fallback_translation e s3")
  from fallbacks have "\<forall>i<length (fallback_models (config s3)).
        \<not> invocation_succeeds e (length (calls (outside s3)) + i)
             (fallback_models (config s3) ! i)"
    by (simp add: s3)
  from fallback_translation_all_fail [OF this] f have "fr = Some degraded_result"
    by simp
  with n a a' g cr b ad f show ?thesis
    by (simp add: translate_command_def translate_body_def)
qed

lemma translate_command_exhausted:
  assumes admitted: "fst (allow_request e (snd (now e s)))"
    and miss: "\<not> truthy_opt (fst (cache_get e
        (generate_cache_key e user_input (json_dumps e context))
        (snd (allow_request e (snd (now e s))))))"
    and admits: "fst (should_allow_request e (snd (cache_get e
        (generate_cache_key e user_input (json_dumps e context))
        (snd (allow_request e (snd (now e s)))))))"
    and primary: "\<forall>k<nat (retry_max_attempts (config s)).
        invocation_raises e (length (calls (outside s)) + k) (llm_model (config s))"
    and delays: "\<forall>k. int k < retry_max_attempts (config s) - 1 \<longrightarrow>
        float_of_int e (retry_exponential_base (config s) ^ k) \<noteq> None"
    and fallbacks: "\<forall>i<length (fallback_models (config s)).
        \<not> invocation_succeeds e
             (length (calls (outside s)) + nat (retry_max_attempts (config s)) + i)
             (fallback_models (config s) ! i)"
  shows "fst (translate_command e user_input context s) = Inr (Some degraded_result)"
proof -
  obtain t s0 where n: "now e s = (t, s0)" by (cases "now e s")
  obtain a s1 where a: "allow_request e s0 = (a, s1)" by (cases "allow_request e s0")
  let ?key = "generate_cache_key e user_input (json_dumps e context)"
  obtain cr s2 where g: "cache_get e ?key s1 = (cr, s2)" by (cases "cache_get e ?key s1")
  obtain ad s3 where b: "should_allow_request e s2 = (ad, s3)"
    by (cases "should_allow_request e s2")
  obtain r s4 where w: "call_llm_with_retry_wrapper e s3 = (r, s4)"
    by (cases "call_llm_with_retry_wrapper e s3")
  from admitted n a have a': "a" by simp
  from miss n a g have cr: "\<not> truthy_opt cr" by simp
  from admits n a g b have ad: "ad" by simp
  have s2: "config s2 = config s" "calls (outside s2) = calls (outside s)"
    using before_breaker [of e ?key s] n a g by simp_all
  have s3: "config s3 = config s" "calls (outside s3) = calls (outside s)"
    using config_kept(4) [of e s2] calls_kept(4) [of e s2] b s2 by simp_all
  let ?A = "nat (retry_max_attempts (config s))"
  have p1: "\<forall>k<?A. invocation_raises e (length (calls (outside s3)) + k)
      (llm_model (config s3))"
    using primary by (simp add: s3)
  have p2: "\<forall>k. k < ?A \<and> int (0 + k) < retry_max_attempts (config s3) - 1 \<longrightarrow>
      float_of_int e (retry_exponential_base (config s3) ^ (0 + k)) \<noteq> None"
    using delays by (simp add: s3)
  from retry_loop_exhausted [OF p1 p2, of None] w
  have r: "isl r" and s4: "calls (outside s4) = calls (outside s) @ replicate ?A
      (llm_model (config s))" "config s4 = config s"
    by (simp_all add: call_llm_with_retry_wrapper_def s3)
  from r obtain x where x: "r = Inl x" by (cases r) auto
  have body: "translate_body e t user_input context s0 = (Inl x, s4)"
    using a a' g cr b ad w x by (simp add: translate_body_def)
  let ?s6 = "(record_failure e s4)\<lparr> metrics :=
      increment ''translation_errors'' 1 (metrics (record_failure e s4)) \<rparr>"
  have s6: "config ?s6 = config s"
    "length (calls (outside ?s6)) = length (calls (outside s)) + ?A"
    using config_kept(5) [of e s4] calls_kept(5) [of e s4] s4 by simp_all
  obtain fr s7 where f: "fallback_translation e ?s6 = (fr, s7)"
    by (cases "fallback_translation e ?s6")
  from fallbacks have "\<forall>i<length (fallback_models (config ?s6)).
        \<not> invocation_succeeds e (length (calls (outside ?s6)) + i)
             (fallback_models (config ?s6) ! i)"
    unfolding s6 by simp
  from fallback_translation_all_fail [OF this] f have "fr = Some degraded_result"
    by simp
  with n body f show ?thesis
    by (simp add: translate_command_def Let_def)
qed

lemma translate_command_no_result:
  assumes admitted: "fst (allow_request e (snd (now e s)))"
    and miss: "\<not> truthy_opt (fst (cache_get e
        (generate_cache_key e user_input (json_dumps e context))
        (snd (allow_request e (snd (now e s))))))"
    and admits: "fst (should_allow_request e (snd (cache_get e
        (generate_cache_key e user_input (json_dumps e context))
        (snd (allow_request e (snd (now e s)))))))"
    and attempts: "j < nat (retry_max_attempts (config s))"
    and earlier: "\<forall>k<j. invocation_raises e (length (calls (outside s)) + k)
                         (llm_model (config s))
                     \<and> float_of_int e (retry_exponential_base (config s) ^ k) \<noteq> None"
    and reply: "provider e (length (calls (outside s)) + j) (llm_model (config s))
        = Content (Some answer)"
    and parsed: "parse_llm_response e answer = Inr r"
    and falsy: "\<not> truthy_opt r"
  shows "fst (translate_command e user_input context s) = Inr r
    \<and> calls (outside (snd (translate_command e user_input context s)))
        = calls (outside s) @ replicate (Suc j) (llm_model (config s))"
proof -
  obtain t s0 where n: "now e s = (t, s0)" by (cases "now e s")
  obtain a s1 where a: "allow_request e s0 = (a, s1)" by (cases "allow_request e s0")
  let ?key = "generate_cache_key e user_input (json_dumps e context)"
  obtain cr s2 where g: "cache_get e ?key s1 = (cr, s2)" by (cases "cache_get e ?key s1")
  obtain ad s3 where b: "should_allow_request e s2 = (ad, s3)"
    by (cases "should_allow_request e s2")
  obtain res s4 where w: "call_llm_with_retry_wrapper e s3 = (res, s4)"
    by (cases "call_llm_with_retry_wrapper e s3")
  from admitted n a have a': "a" by simp
  from miss n a g have cr: "\<not> truthy_opt cr" by simp
  from admits n a g b have ad: "ad" by simp
  have s2: "config s2 = config s" "calls (outside s2) = calls (outside s)"
    using before_breaker [of e ?key s] n a g by simp_all
  have s3: "config s3 = config s" "calls (outside s3) = calls (outside s)"
    using config_kept(4) [of e s2] calls_kept(4) [of e s2] b s2 by simp_all
  have p0: "j < nat (retry_max_attempts (config s3))"
    using attempts by (simp add: s3)
  have p1: "\<forall>k<j. invocation_raises e (length (calls (outside s3)) + k)
      (llm_model (config s3))"
    using earlier by (simp add: s3)
  have p2: "\<forall>k. k < j \<and> int (0 + k) < retry_max_attempts (config s3) - 1 \<longrightarrow>
      float_of_int e (retry_exponential_base (config s3) ^ (0 + k)) \<noteq> None"
    using earlier by (simp add: s3)
  have p3: "provider e (length (calls (outside s3)) + j) (llm_model (config s3))
      = Content (Some answer)"
    using reply by (simp add: s3)
  from retry_loop_returns_after [OF p0 p1 p2 p3 parsed, of None] w
  have res: "res = Inr r"
    and s4: "calls (outside s4) = calls (outside s) @ replicate (Suc j) (llm_model (config s))"
    by (simp_all add: call_llm_with_retry_wrapper_def s3)
  obtain t' s6 where n': "now e (record_failure e s4) = (t', s6)"
    by (cases "now e (record_failure e s4)")
  have s6: "calls (outside s6) = calls (outside s) @ replicate (Suc j) (llm_model (config s))"
    using calls_kept(1) [of e "record_failure e s4"] calls_kept(5) [of e s4] n' s4
    by simp
  have body: "translate_body e t user_input context s0
      = (Inr r, s6\<lparr> metrics := increment ''translations_total'' 1
           (observe ''translation_latency_ms''
              (float_mul e (float_sub e t' t) 1000) (metrics s6)) \<rparr>)"
    using a a' g cr b ad w res falsy n' by (simp add: translate_body_def Let_def)
  from n body s6 show ?thesis
    by (simp add: translate_command_def)
qed

lemmas run_defs =
  translate_command_def translate_body_def allow_request_def now_def Let_def
  cache_get_def cache_set_def is_expired_def breaker_defs
  call_llm_with_retry_wrapper_def retry_loop.simps call_llm_def backoff_delay_def
  uniform_def random_draw_def sleep_def fallback_translation_def generate_cache_key_def
  parse_llm_response_def search_braces_def increment_def counter_def observe_def
  new_system_def default_config_def still_env_def new_token_bucket_def new_metrics_def
  double_round_small double_round_tenth double_of_int_small

text \<open>
  Claim C1 as stated fails: a call that the rate limiter turns away returns \<^verbatim>\<open>None\<close>, an
  absent result, not the degraded result. With a bucket of one token and every provider
  call failing, the first call returns the degraded result and the second, made at the
  same instant, is denied and returns \<^verbatim>\<open>None\<close>. An admitted call also returns
  \<^verbatim>\<open>None\<close> when the primary model answers with text that holds no JSON object: the
  fallback models are not tried then.
\<close>

theorem C1_rate_limited_call_returns_none:
  "fst (translate_command still_env ''list files'' [(''cwd'', JStr ''/'')] single_token_system)
     = Inr (Some degraded_result)
   \<and> \<not> fst (allow_request still_env (snd (now still_env
         (snd (translate_command still_env ''list files'' [(''cwd'', JStr ''/'')]
            single_token_system)))))
   \<and> fst (translate_command still_env ''list files'' [(''cwd'', JStr ''/'')]
         (snd (translate_command still_env ''list files'' [(''cwd'', JStr ''/'')]
            single_token_system)))
     = Inr None
   \<and> fst (translate_command prose_env ''list files'' [(''cwd'', JStr ''/'')]
         (new_system prose_env default_config))
     = Inr None
   \<and> calls (outside (snd (translate_command prose_env ''list files'' [(''cwd'', JStr ''/'')]
         (new_system prose_env default_config))))
     = [''gpt-4.1-mini'']"
proof -
  have A: "fst (translate_command still_env ''list files'' [(''cwd'', JStr ''/'')]
        single_token_system)
     = Inr (Some degraded_result)
   \<and> \<not> fst (allow_request still_env (snd (now still_env
         (snd (translate_command still_env ''list files'' [(''cwd'', JStr ''/'')]
            single_token_system)))))
   \<and> fst (translate_command still_env ''list files'' [(''cwd'', JStr ''/'')]
         (snd (translate_command still_env ''list files'' [(''cwd'', JStr ''/'')]
            single_token_system)))
     = Inr None"
    by (simp add: single_token_system_def run_defs eval_nat_numeral)
  have B: "fst (translate_command prose_env ''list files'' [(''cwd'', JStr ''/'')]
         (new_system prose_env default_config))
     = Inr None
   \<and> calls (outside (snd (translate_command prose_env ''list files'' [(''cwd'', JStr ''/'')]
         (new_system prose_env default_config))))
     = [''gpt-4.1-mini'']"
    by (simp add: prose_env_def run_defs eval_nat_numeral)
  from A B show ?thesis by blast
qed

text \<open>
  Claim C1, amended: \<^verbatim>\<open>translate_command\<close> never raises. When the rate limiter denies
  the call it returns \<^verbatim>\<open>None\<close>. For a call that the limiter admits and the cache cannot
  serve: when the breaker refuses the request and every fallback model invoked fails
  (raises or yields no usable result), the result is the degraded result, whether or not
  the primary model would have answered; when the breaker admits the request, every one
  of the \<open>retry_max_attempts\<close> attempts with the primary model raises (the delays between
  them being computable) and every fallback model invoked after them fails, the result is
  the degraded result; when the breaker admits the request and an attempt with the
  primary model, the attempts before it having raised, returns a result that Python
  counts as false, \<^verbatim>\<open>None\<close> for text that does not parse, that result is returned
  after the provider calls of these attempts, the fallback models not being tried. The
  degraded result has an empty command and a \<open>safe\<close> flag that is false. The invocations
  are named by their position in the sequence of provider calls: the primary attempts
  follow the calls made before, the fallback models follow the primary attempts.
\<close>

theorem C1_translate_command_results:
  "(\<exists>r. fst (translate_command e user_input ctx s) = Inr r)
   \<and> (\<not> fst (allow_request e (snd (now e s))) \<longrightarrow>
        fst (translate_command e user_input ctx s) = Inr None)
   \<and> (let s1 = snd (allow_request e (snd (now e s)));
           key = generate_cache_key e user_input (json_dumps e ctx);
           s2 = snd (cache_get e key s1);
           n = length (calls (outside s));
           primary = llm_model (config s);
           attempts = nat (retry_max_attempts (config s));
           ms = fallback_models (config s)
       in fst (allow_request e (snd (now e s))) \<and> \<not> truthy_opt (fst (cache_get e key s1)) \<longrightarrow>
            (\<not> fst (should_allow_request e s2)
               \<and> (\<forall>i<length ms. \<not> invocation_succeeds e (n + i) (ms ! i)) \<longrightarrow>
             fst (translate_command e user_input ctx s) = Inr (Some degraded_result))
          \<and> (fst (should_allow_request e s2)
               \<and> (\<forall>k<attempts. invocation_raises e (n + k) primary)
               \<and> (\<forall>k. int k < retry_max_attempts (config s) - 1 \<longrightarrow>
                      float_of_int e (retry_exponential_base (config s) ^ k) \<noteq> None)
               \<and> (\<forall>i<length ms. \<not> invocation_succeeds e (n + attempts + i) (ms ! i)) \<longrightarrow>
             fst (translate_command e user_input ctx s) = Inr (Some degraded_result))
          \<and> (fst (should_allow_request e s2)
               \<and> j < attempts
               \<and> (\<forall>k<j. invocation_raises e (n + k) primary
                          \<and> float_of_int e (retry_exponential_base (config s) ^ k) \<noteq> None)
               \<and> provider e (n + j) primary = Content (Some answer)
               \<and> parse_llm_response e answer = Inr r
               \<and> \<not> truthy_opt r \<longrightarrow>
             fst (translate_command e user_input ctx s) = Inr r
             \<and> calls (outside (snd (translate_command e user_input ctx s)))
                 = calls (outside s) @ replicate (Suc j) primary))
   \<and> (\<exists>kvs. degraded_result = JDict kvs
        \<and> map_of kvs ''command'' = Some (JStr [])
        \<and> map_of kvs ''safe'' = Some (JBool False))"
proof -
  have never: "\<exists>r. fst (translate_command e user_input ctx s) = Inr r"
    by (rule translate_command_returns)
  have denied: "\<not> fst (allow_request e (snd (now e s))) \<longrightarrow>
        fst (translate_command e user_input ctx s) = Inr None"
    by (simp add: translate_command_denied)
  have shape: "\<exists>kvs. degraded_result = JDict kvs
        \<and> map_of kvs ''command'' = Some (JStr [])
        \<and> map_of kvs ''safe'' = Some (JBool False)"
    by (simp add: degraded_result_def)
  let ?s1 = "snd (allow_request e (snd (now e s)))"
  let ?key = "generate_cache_key e user_input (json_dumps e ctx)"
  let ?s2 = "snd (cache_get e ?key ?s1)"
  let ?n = "length (calls (outside s))"
  let ?A = "nat (retry_max_attempts (config s))"
  let ?ms = "fallback_models (config s)"
  have admitted: "(\<not> fst (should_allow_request e ?s2)
               \<and> (\<forall>i<length ?ms. \<not> invocation_succeeds e (?n + i) (?ms ! i)) \<longrightarrow>
             fst (translate_command e user_input ctx s) = Inr (Some degraded_result))
          \<and> (fst (should_allow_request e ?s2)
               \<and> (\<forall>k<?A. invocation_raises e (?n + k) (llm_model (config s)))
               \<and> (\<forall>k. int k < retry_max_attempts (config s) - 1 \<longrightarrow>
                      float_of_int e (retry_exponential_base (config s) ^ k) \<noteq> None)
               \<and> (\<forall>i<length ?ms. \<not> invocation_succeeds e (?n + ?A + i) (?ms ! i)) \<longrightarrow>
             fst (translate_command e user_input ctx s) = Inr (Some degraded_result))
          \<and> (fst (should_allow_request e ?s2)
               \<and> j < ?A
               \<and> (\<forall>k<j. invocation_raises e (?n + k) (llm_model (config s))
                          \<and> float_of_int e (retry_exponential_base (config s) ^ k) \<noteq> None)
               \<and> provider e (?n + j) (llm_model (config s)) = Content (Some answer)
               \<and> parse_llm_response e answer = Inr r
               \<and> \<not> truthy_opt r \<longrightarrow>
             fst (translate_command e user_input ctx s) = Inr r
             \<and> calls (outside (snd (translate_command e user_input ctx s)))
                 = calls (outside s) @ replicate (Suc j) (llm_model (config s)))"
    if a: "fst (allow_request e (snd (now e s)))"
      and m: "\<not> truthy_opt (fst (cache_get e ?key ?s1))"
  proof (intro conjI impI)
    assume "\<not> fst (should_allow_request e ?s2)
        \<and> (\<forall>i<length ?ms. \<not> invocation_succeeds e (?n + i) (?ms ! i))"
    then show "fst (translate_command e user_input ctx s) = Inr (Some degraded_result)"
      using translate_command_open [OF a m] by blast
  next
    assume "fst (should_allow_request e ?s2)
        \<and> (\<forall>k<?A. invocation_raises e (?n + k) (llm_model (config s)))
        \<and> (\<forall>k. int k < retry_max_attempts (config s) - 1 \<longrightarrow>
               float_of_int e (retry_exponential_base (config s) ^ k) \<noteq> None)
        \<and> (\<forall>i<length ?ms. \<not> invocation_succeeds e (?n + ?A + i) (?ms ! i))"
    then show "fst (translate_command e user_input ctx s) = Inr (Some degraded_result)"
      using translate_command_exhausted [OF a m] by blast
  next
    assume h: "fst (should_allow_request e ?s2)
        \<and> j < ?A
        \<and> (\<forall>k<j. invocation_raises e (?n + k) (llm_model (config s))
                   \<and> float_of_int e (retry_exponential_base (config s) ^ k) \<noteq> None)
        \<and> provider e (?n + j) (llm_model (config s)) = Content (Some answer)
        \<and> parse_llm_response e answer = Inr r
        \<and> \<not> truthy_opt r"
    then have h1: "fst (should_allow_request e ?s2)"
      and h2: "j < ?A"
      and h3: "\<forall>k<j. invocation_raises e (?n + k) (llm_model (config s))
                   \<and> float_of_int e (retry_exponential_base (config s) ^ k) \<noteq> None"
      and h4: "provider e (?n + j) (llm_model (config s)) = Content (Some answer)"
      and h5: "parse_llm_response e answer = Inr r"
      and h6: "\<not> truthy_opt r"
      by blast+
    note T = translate_command_no_result [OF a m h1 h2 h3 h4 h5 h6]
    from T show "fst (translate_command e user_input ctx s) = Inr r"
      by blast
    from T show "calls (outside (snd (translate_command e user_input ctx s)))
        = calls (outside s) @ replicate (Suc j) (llm_model (config s))"
      by blast
  qed
  from never denied admitted shape show ?thesis
    unfolding Let_def by blast
qed

theorem C1_translate_command_results_witness:
  "fst (translate_command still_env ''show disk usage'' []
        (snd (allow_request still_env single_token_system))) = Inr None
   \<and> fst (translate_command still_env ''show disk usage'' [] single_token_system)
       = Inr (Some degraded_result)
   \<and> invocation_succeeds primary_only_env 0 ''gpt-4.1-mini''
   \<and> state (circuit_breaker open_breaker_system) = OPEN
   \<and> fst (translate_command primary_only_env ''show disk usage'' [] open_breaker_system)
       = Inr (Some degraded_result)
   \<and> fst (translate_command flaky_env ''show disk usage'' []
        (new_system flaky_env default_config)) = Inr None
   \<and> calls (outside (snd (translate_command flaky_env ''show disk usage'' []
        (new_system flaky_env default_config)))) = [''gpt-4.1-mini'', ''gpt-4.1-mini'']"
proof -
  note T = C1_translate_command_results
  note setup_defs = allow_request_def now_def Let_def new_system_def default_config_def
    new_token_bucket_def cache_get_def should_allow_request_def generate_cache_key_def
    double_round_small

  have denied: "\<not> fst (allow_request still_env (snd (now still_env
        (snd (allow_request still_env single_token_system)))))"
    by (simp add: single_token_system_def setup_defs still_env_def)
  from T [where e = still_env and s = "snd (allow_request still_env single_token_system)"
        and user_input = "''show disk usage''" and ctx = "[]",
      THEN conjunct2, THEN conjunct1, THEN mp, OF denied]
  have A: "fst (translate_command still_env ''show disk usage'' []
        (snd (allow_request still_env single_token_system))) = Inr None" .

  let ?s = "single_token_system"
  have st: "config ?s = default_config\<lparr> rate_limit_burst_size := 1 \<rparr>"
    "calls (outside ?s) = []"
    by (simp_all add: single_token_system_def new_system_def)
  have a1: "fst (allow_request still_env (snd (now still_env ?s)))
      \<and> \<not> truthy_opt (fst (cache_get still_env
            (generate_cache_key still_env ''show disk usage'' (json_dumps still_env []))
            (snd (allow_request still_env (snd (now still_env ?s))))))"
    by (simp add: single_token_system_def setup_defs still_env_def)
  have a2: "fst (should_allow_request still_env (snd (cache_get still_env
        (generate_cache_key still_env ''show disk usage'' (json_dumps still_env []))
        (snd (allow_request still_env (snd (now still_env ?s)))))))"
    by (simp add: single_token_system_def setup_defs still_env_def)
  have down: "invocation_raises still_env n m" "\<not> invocation_succeeds still_env n m" for n m
    by (simp_all add: invocation_raises_def invocation_succeeds_def still_env_def)
  have a3: "\<forall>k<nat (retry_max_attempts (config ?s)).
      invocation_raises still_env (length (calls (outside ?s)) + k) (llm_model (config ?s))"
    by (simp add: down)
  have a4: "\<forall>k. int k < retry_max_attempts (config ?s) - 1 \<longrightarrow>
      float_of_int still_env (retry_exponential_base (config ?s) ^ k) \<noteq> None"
  proof (intro allI impI)
    fix k assume "int k < retry_max_attempts (config ?s) - 1"
    then have "k = 0 \<or> k = 1"
      by (auto simp: st default_config_def)
    then show "float_of_int still_env (retry_exponential_base (config ?s) ^ k) \<noteq> None"
      by (auto simp: st default_config_def still_env_floats double_of_int_small)
  qed
  have a5: "\<forall>i<length (fallback_models (config ?s)).
      \<not> invocation_succeeds still_env
           (length (calls (outside ?s)) + nat (retry_max_attempts (config ?s)) + i)
           (fallback_models (config ?s) ! i)"
    by (simp add: down)
  from T [where e = still_env and s = "?s" and user_input = "''show disk usage''"
        and ctx = "[]",
      THEN conjunct2, THEN conjunct2, THEN conjunct1, unfolded Let_def, THEN mp, OF a1,
      THEN conjunct2, THEN conjunct1, THEN mp, OF conjI [OF a2 conjI [OF a3 conjI [OF a4 a5]]]]
  have B: "fst (translate_command still_env ''show disk usage'' [] ?s)
      = Inr (Some degraded_result)" .

  let ?o = "open_breaker_system"
  have pv: "provider primary_only_env n m
      = (if m = ''gpt-4.1-mini'' then Content (Some ls_reply) else Raises ApiError)" for n m
    by (simp add: primary_only_env_def)
  have up: "invocation_succeeds primary_only_env 0 ''gpt-4.1-mini''"
    by (simp add: invocation_succeeds_def pv ls_reply_parses)
  have ob: "state (circuit_breaker ?o) = OPEN"
    "fallback_models (config ?o) = [''gpt-4.1-nano'', ''gemini-2.5-flash'']"
    by (simp_all add: open_breaker_system_def eval_nat_numeral breaker_defs Let_def
        new_system_def default_config_def)
  have b1: "fst (allow_request primary_only_env (snd (now primary_only_env ?o)))
      \<and> \<not> truthy_opt (fst (cache_get primary_only_env
            (generate_cache_key primary_only_env ''show disk usage''
               (json_dumps primary_only_env []))
            (snd (allow_request primary_only_env (snd (now primary_only_env ?o))))))"
    by (simp add: open_breaker_system_def eval_nat_numeral breaker_defs setup_defs
        primary_only_env_def still_env_def)
  have b2: "\<not> fst (should_allow_request primary_only_env (snd (cache_get primary_only_env
        (generate_cache_key primary_only_env ''show disk usage''
           (json_dumps primary_only_env []))
        (snd (allow_request primary_only_env (snd (now primary_only_env ?o)))))))"
    by (simp add: open_breaker_system_def eval_nat_numeral breaker_defs setup_defs
        primary_only_env_def still_env_def)
  have others: "\<not> invocation_succeeds primary_only_env n ''gpt-4.1-nano''"
    "\<not> invocation_succeeds primary_only_env n ''gemini-2.5-flash''" for n
    by (simp_all add: invocation_succeeds_def pv)
  have b3: "\<forall>i<length (fallback_models (config ?o)).
      \<not> invocation_succeeds primary_only_env (length (calls (outside ?o)) + i)
           (fallback_models (config ?o) ! i)"
    by (simp add: ob others less_Suc_eq nth_Cons' all_conj_distrib)
  from T [where e = primary_only_env and s = "?o" and user_input = "''show disk usage''"
        and ctx = "[]",
      THEN conjunct2, THEN conjunct2, THEN conjunct1, unfolded Let_def, THEN mp, OF b1,
      THEN conjunct1, THEN mp, OF conjI [OF b2 b3]]
  have C: "fst (translate_command primary_only_env ''show disk usage'' [] ?o)
      = Inr (Some degraded_result)" .

  let ?p = "new_system flaky_env default_config"
  let ?prose = "''Sorry, I cannot help.''"
  have fp: "provider flaky_env n m
      = (if n = 0 then Raises TimeoutError else Content (Some ?prose))" for n m
    by (simp add: flaky_env_def)
  have c1: "fst (allow_request flaky_env (snd (now flaky_env ?p)))
      \<and> \<not> truthy_opt (fst (cache_get flaky_env
            (generate_cache_key flaky_env ''show disk usage'' (json_dumps flaky_env []))
            (snd (allow_request flaky_env (snd (now flaky_env ?p))))))"
    by (simp add: setup_defs flaky_env_def still_env_def)
  have c2: "fst (should_allow_request flaky_env (snd (cache_get flaky_env
        (generate_cache_key flaky_env ''show disk usage'' (json_dumps flaky_env []))
        (snd (allow_request flaky_env (snd (now flaky_env ?p)))))))"
    by (simp add: setup_defs flaky_env_def still_env_def)
  have c3: "1 < nat (retry_max_attempts (config ?p))"
    by (simp add: new_system_def default_config_def)
  have c4: "\<forall>k<1. invocation_raises flaky_env (length (calls (outside ?p)) + k)
                     (llm_model (config ?p))
                 \<and> float_of_int flaky_env (retry_exponential_base (config ?p) ^ k) \<noteq> None"
    by (simp add: new_system_def default_config_def invocation_raises_def fp
        double_of_int_small)
       (simp add: flaky_env_def still_env_def double_of_int_small)
  have c5: "provider flaky_env (length (calls (outside ?p)) + 1) (llm_model (config ?p))
        = Content (Some ?prose)
      \<and> parse_llm_response flaky_env ?prose = Inr None
      \<and> \<not> truthy_opt None"
    by (simp add: fp parse_llm_response_def search_braces_def)
  from T [where e = flaky_env and s = "?p" and user_input = "''show disk usage''"
        and ctx = "[]" and answer = "?prose" and r = None and j = 1,
      THEN conjunct2, THEN conjunct2, THEN conjunct1, unfolded Let_def, THEN mp, OF c1,
      THEN conjunct2, THEN conjunct2, THEN mp,
      OF conjI [OF c2 conjI [OF c3 conjI [OF c4 c5]]]]
  have D: "fst (translate_command flaky_env ''show disk usage'' [] ?p) = Inr None
      \<and> calls (outside (snd (translate_command flaky_env ''show disk usage'' [] ?p)))
          = [''gpt-4.1-mini'', ''gpt-4.1-mini'']"
    by (simp add: new_system_def default_config_def eval_nat_numeral)
  from A B up ob(1) C D show ?thesis by blast
qed

subsection \<open>LRUCache.set\<close>

lemma assign_new: "key \<notin> fst ` set d \<Longrightarrow> assign key v d = d @ [(key, v)]"
  by (induction d) auto

lemma cache_set_full:
  assumes "cache_enabled (config s)"
    and "1 \<le> cache_max_size (config s)"
    and "cache_max_size (config s) \<le> int (length (cache s))"
  shows "cache_set e key v ttl_arg s =
     (None,
      s\<lparr> outside := (outside s)\<lparr> reads := Suc (reads (outside s)) \<rparr>,
         cache := assign key
            \<lparr> entry_value = v, timestamp = clock e (reads (outside s)),
              ttl = (case ttl_arg of None \<Rightarrow> cache_ttl (config s) | Some t \<Rightarrow> t) \<rparr>
            (tl (cache s)),
         metrics := set_gauge ''cache_size''
            (real (length (assign key
               \<lparr> entry_value = v, timestamp = clock e (reads (outside s)),
                 ttl = (case ttl_arg of None \<Rightarrow> cache_ttl (config s) | Some t \<Rightarrow> t) \<rparr>
               (tl (cache s)))))
            (increment ''cache_eviction'' 1 (metrics s)) \<rparr>)"
proof -
  from assms obtain x rest where "cache s = x # rest"
    by (cases "cache s") auto
  with assms show ?thesis
    by (simp add: cache_set_def now_def Let_def)
qed

lemma cache_set_room:
  assumes "cache_enabled (config s)"
    and "int (length (cache s)) < cache_max_size (config s)"
  shows "cache_set e key v ttl_arg s =
     (None,
      s\<lparr> outside := (outside s)\<lparr> reads := Suc (reads (outside s)) \<rparr>,
         cache := assign key
            \<lparr> entry_value = v, timestamp = clock e (reads (outside s)),
              ttl = (case ttl_arg of None \<Rightarrow> cache_ttl (config s) | Some t \<Rightarrow> t) \<rparr>
            (cache s),
         metrics := set_gauge ''cache_size''
            (real (length (assign key
               \<lparr> entry_value = v, timestamp = clock e (reads (outside s)),
                 ttl = (case ttl_arg of None \<Rightarrow> cache_ttl (config s) | Some t \<Rightarrow> t) \<rparr>
               (cache s))))
            (metrics s) \<rparr>)"
  using assms by (simp add: cache_set_def now_def Let_def)

text \<open>
  What does hold of a run of \<^verbatim>\<open>set\<close> calls: when the keys are new and distinct, the
  entries left are the last ones set, as many as the capacity allows.
\<close>

lemma set_each_lru:
  assumes "cache_enabled (config s)"
    and "cache_max_size (config s) = int c"
    and "1 \<le> c"
    and "length (cache s) \<le> c"
    and "distinct (map fst (cache s) @ map fst kvs)"
  shows "fst (set_each e kvs s) = None
    \<and> config (snd (set_each e kvs s)) = config s
    \<and> stored (cache (snd (set_each e kvs s)))
        = drop (length (cache s) + length kvs - c) (stored (cache s) @ kvs)"
  using assms
proof (induction kvs arbitrary: s)
  case Nil
  then show ?case by simp
next
  case (Cons kv rest)
  obtain k1 v1 where kv: "kv = (k1, v1)" by (cases kv)
  let ?entry = "\<lparr> entry_value = v1, timestamp = clock e (reads (outside s)),
                  ttl = cache_ttl (config s) \<rparr>"
  from Cons.prems(5) kv have new: "k1 \<notin> fst ` set (cache s)"
    by auto
  show ?case
  proof (cases "length (cache s) = c")
    case True
    with Cons.prems obtain x xs where xs: "cache s = x # xs"
      by (cases "cache s") auto
    from new xs have new': "k1 \<notin> fst ` set xs" by auto
    define s1 where "s1 = snd (cache_set e k1 v1 None s)"
    have cs: "cache_set e k1 v1 None s = (None, s1)"
      and c1: "cache s1 = xs @ [(k1, ?entry)]"
      and cfg1: "config s1 = config s"
      using cache_set_full [of s e k1 v1 None] Cons.prems True xs new'
      by (simp_all add: s1_def assign_new)
    have pre: "cache_enabled (config s1)" "cache_max_size (config s1) = int c"
      "length (cache s1) \<le> c" "distinct (map fst (cache s1) @ map fst rest)"
      using Cons.prems True xs kv by (auto simp: c1 cfg1)
    from Cons.IH [OF pre(1) pre(2) Cons.prems(3) pre(3) pre(4)]
    have ih: "fst (set_each e rest s1) = None
      \<and> config (snd (set_each e rest s1)) = config s1
      \<and> stored (cache (snd (set_each e rest s1)))
          = drop (length (cache s1) + length rest - c) (stored (cache s1) @ rest)" .
    have eq: "set_each e (kv # rest) s = set_each e rest s1"
      using cs kv by simp
    have len: "length xs = c - 1" using True xs by simp
    have "drop (length (cache s1) + length rest - c) (stored (cache s1) @ rest)
        = drop (length (cache s) + length (kv # rest) - c) (stored (cache s) @ kv # rest)"
      using True xs kv Cons.prems(3) by (simp add: c1 stored_def)
    with ih eq cfg1 show ?thesis by simp
  next
    case False
    with Cons.prems have lt: "length (cache s) < c" by simp
    define s1 where "s1 = snd (cache_set e k1 v1 None s)"
    have cs: "cache_set e k1 v1 None s = (None, s1)"
      and c1: "cache s1 = cache s @ [(k1, ?entry)]"
      and cfg1: "config s1 = config s"
      using cache_set_room [of s e k1 v1 None] Cons.prems lt new
      by (simp_all add: s1_def assign_new)
    have pre: "cache_enabled (config s1)" "cache_max_size (config s1) = int c"
      "length (cache s1) \<le> c" "distinct (map fst (cache s1) @ map fst rest)"
      using Cons.prems lt kv by (auto simp: c1 cfg1)
    from Cons.IH [OF pre(1) pre(2) Cons.prems(3) pre(3) pre(4)]
    have ih: "fst (set_each e rest s1) = None
      \<and> config (snd (set_each e rest s1)) = config s1
      \<and> stored (cache (snd (set_each e rest s1)))
          = drop (length (cache s1) + length rest - c) (stored (cache s1) @ rest)" .
    have eq: "set_each e (kv # rest) s = set_each e rest s1"
      using cs kv by simp
    have "drop (length (cache s1) + length rest - c) (stored (cache s1) @ rest)
        = drop (length (cache s) + length (kv # rest) - c) (stored (cache s) @ kv # rest)"
      using kv by (simp add: c1 stored_def)
    with ih eq cfg1 show ?thesis by simp
  qed
qed


text \<open>
  Claim C5 says that a \<^verbatim>\<open>set\<close> on a full cache evicts the least recently used entry, as
  the docstring of the class (an LRU cache) and the comment at the eviction (remove
  oldest) do. The code removes the first entry of the \<^verbatim>\<open>OrderedDict\<close>, and a \<^verbatim>\<open>set\<close> on
  a key that is present keeps the key's position, where \<^verbatim>\<open>get\<close> moves the key to the
  end. With capacity 3 and the clock advancing by one per reading, \<^verbatim>\<open>set\<close> on a, b, a,
  c leaves the entries of a (written at reading 5), b (written at reading 4) and c in this
  order; the next \<^verbatim>\<open>set\<close>, on d, evicts the entry of a and keeps that of b, which was
  used least recently.
\<close>

theorem C5_set_evicts_rewritten_key:
  "map (\<lambda>(key, entry). (key, entry_value entry, timestamp entry))
     (cache (snd (set_each ticking_env
        [(''a'', JStr ''1''), (''b'', JStr ''2''), (''a'', JStr ''3''), (''c'', JStr ''4'')]
        (new_system ticking_env test_cache_config))))
     = [(''a'', JStr ''3'', 5), (''b'', JStr ''2'', 4), (''c'', JStr ''4'', 6)]
   \<and> fst (cache_set ticking_env ''d'' (JStr ''5'') None
        (snd (set_each ticking_env
           [(''a'', JStr ''1''), (''b'', JStr ''2''), (''a'', JStr ''3''), (''c'', JStr ''4'')]
           (new_system ticking_env test_cache_config)))) = None
   \<and> map (\<lambda>(key, entry). (key, entry_value entry, timestamp entry))
     (cache (snd (cache_set ticking_env ''d'' (JStr ''5'') None
        (snd (set_each ticking_env
           [(''a'', JStr ''1''), (''b'', JStr ''2''), (''a'', JStr ''3''), (''c'', JStr ''4'')]
           (new_system ticking_env test_cache_config))))))
     = [(''b'', JStr ''2'', 4), (''c'', JStr ''4'', 6), (''d'', JStr ''5'', 7)]
   \<and> counter (metrics (snd (cache_set ticking_env ''d'' (JStr ''5'') None
        (snd (set_each ticking_env
           [(''a'', JStr ''1''), (''b'', JStr ''2''), (''a'', JStr ''3''), (''c'', JStr ''4'')]
           (new_system ticking_env test_cache_config))))))
       ''cache_eviction'' = 1"
  by (simp add: cache_set_def now_def Let_def new_system_def test_cache_config_def
      default_config_def ticking_env_def still_env_def increment_def set_gauge_def
      counter_def new_metrics_def)

subsection \<open>TaskQueue\<close>

lemma heap_le_refl: "heap_le x x"
  by (simp add: heap_le_def tuple_lt_def)

lemma heap_le_trans: "heap_le x y \<Longrightarrow> heap_le y z \<Longrightarrow> heap_le x z"
  by (auto simp: heap_le_def tuple_lt_def task_lt_def split: if_splits)

lemma tuple_lt_heap_le: "tuple_lt x y \<Longrightarrow> heap_le x y"
  by (auto simp: heap_le_def tuple_lt_def task_lt_def split: if_splits)

lemma heap_le_total: "\<not> heap_le x y \<Longrightarrow> heap_le y x"
  by (auto simp: heap_le_def tuple_lt_def task_lt_def split: if_splits)

lemma tuple_lt_trans_le: "tuple_lt x y \<Longrightarrow> heap_le y z \<Longrightarrow> heap_le x z"
  by (auto simp: heap_le_def tuple_lt_def task_lt_def split: if_splits)

lemma heap_le_fst: "heap_le x y \<Longrightarrow> fst x \<le> fst y"
  by (auto simp: heap_le_def tuple_lt_def split: if_splits)

lemma parent_less: "0 < (i::nat) \<Longrightarrow> (i - 1) div 2 < i"
  by arith

lemma parent_neq:
  "0 < (i::nat) \<Longrightarrow> (i - Suc 0) div 2 \<noteq> i"
  "0 < (i::nat) \<Longrightarrow> i \<noteq> (i - Suc 0) div 2"
  by arith+

lemma child_of:
  "0 < (i::nat) \<Longrightarrow> ((i - 1) div 2 = p) = (i = 2 * p + 1 \<or> i = 2 * p + 2)"
  by arith

lemma hole_heap_update: "hole_heap (h[p := y]) p = hole_heap h p"
  unfolding hole_heap_def by (auto simp: nth_list_update parent_neq)

lemma is_heap_hole: "is_heap h \<Longrightarrow> hole_heap h p"
proof -
  assume h: "is_heap h"
  have "heap_le (h ! ((p - 1) div 2)) (h ! i)"
    if "i < length h" "0 < i" "(i - 1) div 2 = p" "0 < p" for i
  proof -
    from that have "p < length h" by arith
    with h that have "heap_le (h ! ((p - 1) div 2)) (h ! p)" "heap_le (h ! p) (h ! i)"
      by (auto simp: is_heap_def)
    then show ?thesis by (rule heap_le_trans)
  qed
  with h show ?thesis by (auto simp: hole_heap_def is_heap_def)
qed


declare siftdown_loop.simps [simp del]
declare siftup_loop.simps [simp del]

lemma length_siftdown_loop: "length (siftdown_loop h st p x) = length h"
proof (induction h st p x rule: siftdown_loop.induct)
  case (1 heap startpos pos newitem)
  show ?case
    using "1.IH" by (subst siftdown_loop.simps) (simp add: Let_def)
qed

lemma mset_swap_update:
  assumes "p < length h" and "q < length h" and "q \<noteq> p"
  shows "mset (h[p := h ! q, q := x]) = mset (h[p := x])"
proof -
  let ?l = "h[p := x]"
  have "mset (?l[p := ?l ! q, q := ?l ! p]) = mset ?l"
    using assms by (intro mset_swap) simp_all
  with assms show ?thesis by simp
qed

lemma mset_siftdown_loop:
  "p < length h \<Longrightarrow> mset (siftdown_loop h st p x) = mset (h[p := x])"
proof (induction h st p x rule: siftdown_loop.induct)
  case (1 heap startpos pos newitem)
  show ?case
  proof (cases "pos > startpos \<and> tuple_lt newitem (heap ! ((pos - 1) div 2))")
    case True
    let ?pp = "(pos - 1) div 2"
    from True have pp: "?pp < pos" by arith
    with "1.prems" have ppl: "?pp < length heap" by simp
    have "siftdown_loop heap startpos pos newitem
        = siftdown_loop (heap[pos := heap ! ?pp]) startpos ?pp newitem"
      using True by (subst siftdown_loop.simps) (simp add: Let_def)
    moreover have "mset (siftdown_loop (heap[pos := heap ! ?pp]) startpos ?pp newitem)
        = mset (heap[pos := heap ! ?pp, ?pp := newitem])"
      using "1.IH" [of ?pp "heap ! ?pp"] True ppl by simp
    moreover have "mset (heap[pos := heap ! ?pp, ?pp := newitem]) = mset (heap[pos := newitem])"
      using "1.prems" ppl pp by (intro mset_swap_update) simp_all
    ultimately show ?thesis by simp
  next
    case False
    then show ?thesis
      by (subst siftdown_loop.simps) (auto simp: Let_def)
  qed
qed

lemma siftdown_loop_heap:
  assumes "p < length h"
    and "hole_heap h p"
    and "\<forall>i<length h. 0 < i \<and> (i - 1) div 2 = p \<longrightarrow> heap_le x (h ! i)"
  shows "is_heap (siftdown_loop h 0 p x)"
  using assms
proof (induction h "0::nat" p x rule: siftdown_loop.induct)
  case (1 heap pos newitem)
  let ?pp = "(pos - 1) div 2"
  note hole = "1.prems"(2) [unfolded hole_heap_def]
  show ?case
  proof (cases "pos > 0 \<and> tuple_lt newitem (heap ! ?pp)")
    case True
    then have pp: "?pp < pos" by arith
    with "1.prems" have ppl: "?pp < length heap" by simp
    let ?h = "heap[pos := heap ! ?pp]"
    have eq: "siftdown_loop heap 0 pos newitem = siftdown_loop ?h 0 ?pp newitem"
      using True by (subst siftdown_loop.simps) (simp add: Let_def)
    have lt: "tuple_lt newitem (heap ! ?pp)" using True by simp
    have up: "heap_le (heap ! ((?pp - 1) div 2)) (heap ! ?pp)" if "0 < ?pp"
      using hole that ppl pp by (auto simp: parent_neq)
    have h1: "hole_heap ?h ?pp"
      unfolding hole_heap_def
    proof (intro conjI allI impI)
      fix i assume i: "i < length ?h" and c: "0 < i \<and> i \<noteq> ?pp \<and> (i - 1) div 2 \<noteq> ?pp"
      then have ip: "i \<noteq> pos" by auto
      show "heap_le (?h ! ((i - 1) div 2)) (?h ! i)"
      proof (cases "(i - 1) div 2 = pos")
        case True
        with hole i c pp have "heap_le (heap ! ?pp) (heap ! i)"
          by auto
        with True ip "1.prems"(1) show ?thesis by simp
      next
        case False
        with hole i c ip have "heap_le (heap ! ((i - 1) div 2)) (heap ! i)"
          by auto
        with False ip show ?thesis by simp
      qed
    next
      fix i assume i: "i < length ?h" and c: "0 < i \<and> (i - 1) div 2 = ?pp \<and> 0 < ?pp"
      have np: "(?pp - 1) div 2 \<noteq> pos" using c pp by arith
      show "heap_le (?h ! ((?pp - 1) div 2)) (?h ! i)"
      proof (cases "i = pos")
        case True
        with up c np "1.prems"(1) show ?thesis by simp
      next
        case False
        with hole i c pp have B: "heap_le (heap ! ?pp) (heap ! i)"
          by auto
        from c have "0 < ?pp" by simp
        then have A: "heap_le (heap ! ((?pp - 1) div 2)) (heap ! ?pp)"
          by (rule up)
        from heap_le_trans [OF A B] False np show ?thesis by simp
      qed
    qed
    have h2: "\<forall>i<length ?h. 0 < i \<and> (i - 1) div 2 = ?pp \<longrightarrow> heap_le newitem (?h ! i)"
    proof (intro allI impI)
      fix i assume i: "i < length ?h" and c: "0 < i \<and> (i - 1) div 2 = ?pp"
      show "heap_le newitem (?h ! i)"
      proof (cases "i = pos")
        case True
        with lt "1.prems"(1) show ?thesis by (simp add: tuple_lt_heap_le)
      next
        case False
        with hole i c pp have "heap_le (heap ! ?pp) (heap ! i)"
          by auto
        with lt have "heap_le newitem (heap ! i)"
          by (rule tuple_lt_trans_le)
        with False show ?thesis by simp
      qed
    qed
    from "1.hyps" [of ?pp "heap ! ?pp"] True ppl h1 h2
    show ?thesis unfolding eq by simp
  next
    case False
    have eq: "siftdown_loop heap 0 pos newitem = heap[pos := newitem]"
      using False by (subst siftdown_loop.simps) (auto simp: Let_def)
    have par: "heap_le (heap ! ?pp) newitem" if "0 < pos"
      using False that by (auto intro: heap_le_total tuple_lt_heap_le simp: heap_le_def)
    show ?thesis
      unfolding eq is_heap_def
    proof (intro allI impI)
      fix i assume i: "i < length (heap[pos := newitem])" and i0: "0 < i"
      show "heap_le (heap[pos := newitem] ! ((i - 1) div 2)) (heap[pos := newitem] ! i)"
      proof (cases "i = pos")
        case True
        with par i0 "1.prems"(1) show ?thesis by (simp add: parent_neq)
      next
        case ip: False
        show ?thesis
        proof (cases "(i - 1) div 2 = pos")
          case True
          with "1.prems"(3) i i0 ip "1.prems"(1) show ?thesis by simp
        next
          case False
          with hole i i0 ip show ?thesis by simp
        qed
      qed
    qed
  qed
qed


lemma is_heap_push: "is_heap h \<Longrightarrow> is_heap (heappush h x)"
proof -
  assume h: "is_heap h"
  let ?h1 = "h @ [x]"
  have hole: "hole_heap ?h1 (length h)"
    unfolding hole_heap_def
  proof (intro conjI allI impI)
    fix i assume "i < length ?h1" and c: "0 < i \<and> i \<noteq> length h \<and> (i - 1) div 2 \<noteq> length h"
    then have i: "i < length h" by simp
    with c have "(i - 1) div 2 < length h" by arith
    with h i c show "heap_le (?h1 ! ((i - 1) div 2)) (?h1 ! i)"
      by (simp add: is_heap_def nth_append)
  next
    fix i assume "i < length ?h1" and "0 < i \<and> (i - 1) div 2 = length h \<and> 0 < length h"
    then have False by (auto simp: child_of)
    then show "heap_le (?h1 ! ((length h - 1) div 2)) (?h1 ! i)" ..
  qed
  have nochild: "\<forall>i<length ?h1. 0 < i \<and> (i - 1) div 2 = length h \<longrightarrow> heap_le x (?h1 ! i)"
  proof (intro allI impI)
    fix i assume "i < length ?h1" and "0 < i \<and> (i - 1) div 2 = length h"
    then have False by (auto simp: child_of)
    then show "heap_le x (?h1 ! i)" ..
  qed
  have "is_heap (siftdown_loop ?h1 0 (length h) x)"
    by (rule siftdown_loop_heap [OF _ hole nochild]) simp
  then show ?thesis
    by (simp add: heappush_def siftdown_def Let_def)
qed

lemma mset_push: "mset (heappush h x) = add_mset x (mset h)"
  by (simp add: heappush_def siftdown_def Let_def mset_siftdown_loop)

lemma siftup_loop_hole_aux:
  assumes "n = length h" and "p < length h" and "hole_heap h p"
  shows "case siftup_loop h n p of (h', p') \<Rightarrow>
           length h' = length h \<and> p' < length h \<and> hole_heap h' p'
         \<and> length h \<le> 2 * p' + 1
         \<and> (\<forall>x. mset (h'[p' := x]) = mset (h[p := x]))"
  using assms
proof (induction h n p rule: siftup_loop.induct)
  case (1 heap endpos pos)
  let ?n = "length heap"
  note n = "1.prems"(1)
  let ?c = "2 * pos + 1"
  note hole = "1.prems"(3) [unfolded hole_heap_def]
  note hole1 = hole [THEN conjunct1, rule_format]
  note hole2 = hole [THEN conjunct2, rule_format]
  show ?case
  proof (cases "?c < ?n")
    case False
    then have "siftup_loop heap endpos pos = (heap, pos)"
      by (subst siftup_loop.simps) (simp add: Let_def n)
    with False "1.prems" show ?thesis by simp
  next
    case True
    let ?r = "?c + 1"
    define c' where "c' = (if ?r < ?n \<and> \<not> tuple_lt (heap ! ?c) (heap ! ?r) then ?r else ?c)"
    let ?h = "heap[pos := heap ! c']"
    have eq: "siftup_loop heap endpos pos = siftup_loop ?h endpos c'"
      using True by (subst siftup_loop.simps) (simp add: Let_def c'_def n)
    have c'n: "c' < ?n" using True by (simp add: c'_def)
    have c'cases: "c' = ?c \<or> c' = ?r" by (simp add: c'_def)
    then have c'p: "(c' - 1) div 2 = pos" "0 < c'" "c' \<noteq> pos" by auto
    have sib: "heap_le (heap ! c') (heap ! i)"
      if "i < ?n" "0 < i" "(i - 1) div 2 = pos" "i \<noteq> c'" for i
    proof -
      from that(2,3) have ic: "i = ?c \<or> i = ?r" by arith
      show ?thesis
      proof (cases "?r < ?n \<and> \<not> tuple_lt (heap ! ?c) (heap ! ?r)")
        case True
        then have "c' = ?r" by (simp add: c'_def)
        with that ic have "i = ?c" by auto
        with True \<open>c' = ?r\<close> show ?thesis by (simp add: heap_le_def)
      next
        case False
        then have cc: "c' = ?c" by (simp add: c'_def)
        with that ic have i: "i = ?r" by auto
        with that False have "tuple_lt (heap ! ?c) (heap ! ?r)" by auto
        with cc i show ?thesis by (auto intro: tuple_lt_heap_le)
      qed
    qed
    have h1: "hole_heap ?h c'"
      unfolding hole_heap_def
    proof (intro conjI allI impI)
      fix i assume i: "i < length ?h"
        and c: "0 < i \<and> i \<noteq> c' \<and> (i - 1) div 2 \<noteq> c'"
      show "heap_le (?h ! ((i - 1) div 2)) (?h ! i)"
      proof (cases "i = pos")
        case True
        with c have "0 < pos" by simp
        with hole2 [of c'] c'n c'p have "heap_le (heap ! ((pos - 1) div 2)) (heap ! c')"
          by simp
        with True c "1.prems"(2) show ?thesis by (simp add: parent_neq)
      next
        case ip: False
        show ?thesis
        proof (cases "(i - 1) div 2 = pos")
          case True
          with sib [of i] i c have "heap_le (heap ! c') (heap ! i)" by simp
          with True ip "1.prems"(2) show ?thesis by simp
        next
          case False
          with hole1 [of i] i c ip have "heap_le (heap ! ((i - 1) div 2)) (heap ! i)" by simp
          with False ip show ?thesis by simp
        qed
      qed
    next
      fix i assume i: "i < length ?h"
        and c: "0 < i \<and> (i - 1) div 2 = c' \<and> 0 < c'"
      with c'cases have ip: "i \<noteq> pos" "(i - 1) div 2 \<noteq> pos" by auto
      with hole1 [of i] i c have "heap_le (heap ! c') (heap ! i)" by simp
      moreover have "?h ! ((c' - 1) div 2) = heap ! c'"
        using "1.prems"(2) by (simp only: c'p nth_list_update_eq)
      moreover have "?h ! i = heap ! i" using ip by simp
      ultimately show "heap_le (?h ! ((c' - 1) div 2)) (?h ! i)" by simp
    qed
    have len: "length ?h = ?n" by simp
    have True': "2 * pos + 1 < endpos" using True n by simp
    note IH = "1.IH" [OF refl True' refl refl, unfolded n, folded c'_def]
    have ih: "case siftup_loop ?h endpos c' of (h', p') \<Rightarrow>
           length h' = length ?h \<and> p' < length ?h \<and> hole_heap h' p'
         \<and> length ?h \<le> 2 * p' + 1
         \<and> (\<forall>x. mset (h'[p' := x]) = mset (?h[c' := x]))"
      unfolding n by (rule IH) (use c'n h1 in simp_all)
    have sw: "mset (?h[c' := x]) = mset (heap[pos := x])" for x
      using "1.prems"(2) c'n c'p(3) by (intro mset_swap_update) simp_all
    from ih show ?thesis
      unfolding eq by (simp add: sw split: prod.splits)
  qed
qed

lemma siftup_loop_hole:
  assumes "p < length h" and "hole_heap h p"
  shows "case siftup_loop h (length h) p of (h', p') \<Rightarrow>
           length h' = length h \<and> p' < length h \<and> hole_heap h' p'
         \<and> length h \<le> 2 * p' + 1
         \<and> (\<forall>x. mset (h'[p' := x]) = mset (h[p := x]))"
  using siftup_loop_hole_aux [OF refl assms] .


lemma is_heap_butlast: "is_heap h \<Longrightarrow> is_heap (butlast h)"
proof -
  assume h: "is_heap h"
  have "heap_le (butlast h ! ((i - 1) div 2)) (butlast h ! i)"
    if "i < length (butlast h)" "0 < i" for i
  proof -
    from that have i: "i < length h - 1" by simp
    with that have pi: "(i - 1) div 2 < length h - 1" by arith
    from i have "i < length h" by arith
    with h that have "heap_le (h ! ((i - 1) div 2)) (h ! i)"
      by (simp add: is_heap_def)
    with i pi show ?thesis
      by (simp add: nth_butlast)
  qed
  then show ?thesis by (simp add: is_heap_def)
qed

lemma heap_root_min: "is_heap h \<Longrightarrow> i < length h \<Longrightarrow> heap_le (h ! 0) (h ! i)"
proof (induction i rule: less_induct)
  case (less i)
  show ?case
  proof (cases "i = 0")
    case True
    then show ?thesis by (simp add: heap_le_refl)
  next
    case False
    then have p: "(i - 1) div 2 < i" by arith
    with less.prems have "(i - 1) div 2 < length h" by simp
    with less.IH [OF p less.prems(1)] have a: "heap_le (h ! 0) (h ! ((i - 1) div 2))" .
    from less.prems False have b: "heap_le (h ! ((i - 1) div 2)) (h ! i)"
      by (simp add: is_heap_def)
    from a b show ?thesis by (rule heap_le_trans)
  qed
qed

lemma mset_replace_root:
  assumes "butlast h \<noteq> []"
  shows "mset ((butlast h)[0 := last h]) = mset h - {#h ! 0#}"
proof -
  from assms obtain x0 rest where h: "h = x0 # rest" and r: "rest \<noteq> []"
    by (cases h) (auto split: if_splits)
  then have "(butlast h)[0 := last h] = last rest # butlast rest"
    by simp
  moreover have "mset (last rest # butlast rest) = mset rest"
    using r by (metis append_butlast_last_id mset.simps(2) mset_append union_mset_add_mset_right
        add.right_neutral mset.simps(1) add_mset_add_single union_commute)
  ultimately show ?thesis using h by simp
qed

lemma siftup_root:
  assumes "h \<noteq> []" and "hole_heap h 0"
  shows "is_heap (siftup h 0) \<and> mset (siftup h 0) = mset h"
proof -
  obtain h1 p1 where l: "siftup_loop h (length h) 0 = (h1, p1)"
    by (cases "siftup_loop h (length h) 0")
  from assms have p0: "0 < length h" by simp
  from siftup_loop_hole [OF p0 assms(2)] l
  have all: "length h1 = length h \<and> p1 < length h \<and> hole_heap h1 p1
      \<and> length h \<le> 2 * p1 + 1 \<and> (\<forall>x. mset (h1[p1 := x]) = mset (h[0 := x]))"
    by simp
  then have len: "length h1 = length h" and p1: "p1 < length h" and hole: "hole_heap h1 p1"
    and leaf: "length h \<le> 2 * p1 + 1"
    by simp_all
  from all have ms: "mset (h1[p1 := x]) = mset (h[0 := x])" for x
    by blast
  let ?h2 = "h1[p1 := h ! 0]"
  have eq: "siftup h 0 = siftdown_loop ?h2 0 p1 (h ! 0)"
    using l p1 len by (simp add: siftup_def siftdown_def Let_def)
  have p1': "p1 < length ?h2" using p1 len by simp
  have hole': "hole_heap ?h2 p1" using hole by (simp add: hole_heap_update)
  have nochild: "\<forall>i<length ?h2. 0 < i \<and> (i - 1) div 2 = p1 \<longrightarrow> heap_le (h ! 0) (?h2 ! i)"
  proof (intro allI impI)
    fix i assume "i < length ?h2" and "0 < i \<and> (i - 1) div 2 = p1"
    with leaf len have False by (auto simp: child_of)
    then show "heap_le (h ! 0) (?h2 ! i)" ..
  qed
  have "is_heap (siftup h 0)"
    unfolding eq by (rule siftdown_loop_heap [OF p1' hole' nochild])
  moreover have "mset (siftup h 0) = mset h"
    unfolding eq using p1' ms [of "h ! 0"] by (simp add: mset_siftdown_loop)
  ultimately show ?thesis by simp
qed

lemma heappop_heap:
  assumes "is_heap h" and "heappop h = Some (x, h')"
  shows "is_heap h' \<and> x = h ! 0 \<and> h \<noteq> [] \<and> mset h' = mset h - {#x#}"
proof -
  from assms(2) have ne: "h \<noteq> []"
    by (auto simp: heappop_def)
  show ?thesis
  proof (cases "butlast h = []")
    case True
    with ne obtain y where "h = [y]"
      by (cases h) (auto split: if_splits)
    with assms(2) show ?thesis
      by (simp add: heappop_def is_heap_def)
  next
    case False
    let ?h2 = "(butlast h)[0 := last h]"
    from assms(2) ne False have x: "x = butlast h ! 0" and h': "h' = siftup ?h2 0"
      by (simp_all add: heappop_def Let_def)
    from False have "0 < length (butlast h)" by (cases "butlast h") auto
    then have "butlast h ! 0 = h ! 0" by (rule nth_butlast)
    with x have x0: "x = h ! 0" by simp
    have "hole_heap ?h2 0"
      using is_heap_hole [OF is_heap_butlast [OF assms(1)], of 0]
      by (simp add: hole_heap_update)
    moreover from False have "?h2 \<noteq> []" by simp
    ultimately have "is_heap (siftup ?h2 0) \<and> mset (siftup ?h2 0) = mset ?h2"
      by (intro siftup_root)
    with h' x0 ne mset_replace_root [OF False] show ?thesis by simp
  qed
qed

lemma heappop_empty: "(heappop h = None) = (h = [])"
  by (simp add: heappop_def Let_def)


lemma set_heappush: "set (heappush h x) = insert x (set h)"
proof -
  have "set_mset (mset (heappush h x)) = set_mset (add_mset x (mset h))"
    by (simp only: mset_push)
  then show ?thesis by simp
qed

lemma queue_ok_push:
  assumes "queue_ok q" and "fst x = priority (snd x)"
  shows "queue_ok (heappush q x)"
  using assms by (cases x) (auto simp: queue_ok_def is_heap_push set_heappush)

lemma queue_ok_pop:
  assumes "queue_ok q" and "heappop q = Some (x, q')"
  shows "queue_ok q'"
proof -
  from assms have h: "is_heap q" by (simp add: queue_ok_def)
  from heappop_heap [OF h assms(2)] have h': "is_heap q'" and m: "mset q' = mset q - {#x#}"
    by simp_all
  have "set q' \<subseteq> set q"
  proof
    fix y assume "y \<in> set q'"
    then have "y \<in># mset q - {#x#}" by (simp add: m [symmetric])
    then have "y \<in># mset q" by (rule in_diffD)
    then show "y \<in> set q" by simp
  qed
  with assms(1) h' show ?thesis by (auto simp: queue_ok_def)
qed

lemma enqueue_queue:
  "task_queue (snd (enqueue e float_str prio s)) =
     (if queue_full s then task_queue s
      else heappush (task_queue s)
        (prio,
         \<lparr> task_id = take 8 (md5_hex e (float_str (clock e (reads (outside s)))
                                @ float_str (random01 e (draws (outside s))))),
           priority = prio,
           created_at = clock e (Suc (reads (outside s))) \<rparr>))"
  by (simp add: enqueue_def now_def random_draw_def Let_def queue_full_def)

lemma dequeue_queue:
  "dequeue s =
     (case heappop (task_queue s) of
        None \<Rightarrow> (None, s)
      | Some (item, rest) \<Rightarrow>
          (Some (snd item),
           s\<lparr> task_queue := rest,
              metrics := set_gauge ''queue_size'' (real (length rest)) (metrics s) \<rparr>))"
  by (simp add: dequeue_def Let_def split: option.splits prod.splits)

text \<open>
  Claim C9 as stated fails in its second half: tasks of equal priority do not leave the
  queue in the order of their arrival. Four tasks enqueued with priority 0 at clock
  readings 4, 6, 8 and 10 are taken by the worker in the order 4, 8, 6, 10.
\<close>

theorem C9_equal_priorities_not_fifo:
  "map (map_option created_at)
     (fst (dequeue_n 4
        (enqueue_each ticking_env flat_float_str [0, 0, 0, 0]
           (new_system ticking_env default_config))))
   = [Some 4, Some 8, Some 6, Some 10]"
  by (simp add: eval_nat_numeral enqueue_def dequeue_def heappush_def heappop_def siftdown_def
      siftup_def siftdown_loop.simps siftup_loop.simps tuple_lt_def task_lt_def queue_full_def
      now_def random_draw_def Let_def new_system_def default_config_def ticking_env_def
      still_env_def flat_float_str_def)


text \<open>
  Claim C9, amended: a worker takes a task whose priority value is lowest among the tasks
  pending, and that task leaves the queue while all others stay. This holds in every
  state of the queue that \<^verbatim>\<open>enqueue\<close> and the workers can produce from the empty queue.
  Among tasks of equal priority the order is the one the binary heap happens to give; the
  order of arrival is not kept.
\<close>

theorem C9_lowest_priority_first:
  "queue_ok []
   \<and> (queue_ok (task_queue s) \<longrightarrow>
        queue_ok (task_queue (snd (enqueue e float_str prio s))))
   \<and> (queue_ok (task_queue s) \<longrightarrow> queue_ok (task_queue (snd (dequeue s))))
   \<and> (queue_ok (task_queue s) \<longrightarrow>
        (case fst (dequeue s) of
           None \<Rightarrow> task_queue s = []
         | Some task \<Rightarrow>
             (priority task, task) \<in> set (task_queue s)
             \<and> (\<forall>(p, t) \<in> set (task_queue s). priority task \<le> priority t)
             \<and> mset (task_queue (snd (dequeue s)))
                 = mset (task_queue s) - {#(priority task, task)#}))"
proof (intro conjI impI)
  show "queue_ok []"
    by (simp add: queue_ok_def is_heap_def)
next
  assume ok: "queue_ok (task_queue s)"
  show "queue_ok (task_queue (snd (enqueue e float_str prio s)))"
    using ok by (simp add: enqueue_queue queue_ok_push)
next
  assume ok: "queue_ok (task_queue s)"
  show "queue_ok (task_queue (snd (dequeue s)))"
  proof (cases "heappop (task_queue s)")
    case None
    with ok show ?thesis by (simp add: dequeue_queue)
  next
    case (Some r)
    obtain x rest where r: "r = (x, rest)" by (cases r)
    from queue_ok_pop [OF ok Some [unfolded r]] Some r show ?thesis
      by (simp add: dequeue_queue)
  qed
next
  assume ok: "queue_ok (task_queue s)"
  let ?q = "task_queue s"
  show "case fst (dequeue s) of
           None \<Rightarrow> ?q = []
         | Some task \<Rightarrow>
             (priority task, task) \<in> set ?q
             \<and> (\<forall>(p, t) \<in> set ?q. priority task \<le> priority t)
             \<and> mset (task_queue (snd (dequeue s))) = mset ?q - {#(priority task, task)#}"
  proof (cases "heappop ?q")
    case None
    then have "?q = []" by (simp add: heappop_empty)
    with None show ?thesis by (simp add: dequeue_queue)
  next
    case (Some r)
    obtain x rest where r: "r = (x, rest)" by (cases r)
    obtain p task where x: "x = (p, task)" by (cases x)
    from ok have h: "is_heap ?q" and pr: "\<forall>(p, t) \<in> set ?q. p = priority t"
      by (simp_all add: queue_ok_def)
    from heappop_heap [OF h Some [unfolded r]]
    have x0: "x = ?q ! 0" and ne: "?q \<noteq> []" and m: "mset rest = mset ?q - {#x#}"
      by simp_all
    from x0 ne have mem: "x \<in> set ?q" by simp
    with pr x have p: "p = priority task" by auto
    have least: "\<forall>(p', t) \<in> set ?q. priority task \<le> priority t"
    proof (clarify)
      fix p' t assume y: "(p', t) \<in> set ?q"
      then obtain i where i: "i < length ?q" "?q ! i = (p', t)"
        by (auto simp: in_set_conv_nth)
      from heap_root_min [OF h i(1)] x0 i(2) have "heap_le x (p', t)" by simp
      then have "fst x \<le> p'" by (auto dest: heap_le_fst)
      with pr y x p show "priority task \<le> priority t" by auto
    qed
    from Some r x p mem least m show ?thesis
      by (simp add: dequeue_queue)
  qed
qed

theorem C9_lowest_priority_first_witness:
  "map_option priority (fst (dequeue (enqueue_each ticking_env flat_float_str [5, 1]
      (new_system ticking_env default_config)))) = Some 1
   \<and> list_all (\<lambda>(p, t). 1 \<le> priority t)
        (task_queue (enqueue_each ticking_env flat_float_str [5, 1]
           (new_system ticking_env default_config)))"
proof -
  let ?s0 = "new_system ticking_env default_config"
  let ?s1 = "snd (enqueue ticking_env flat_float_str 5 ?s0)"
  let ?s2 = "snd (enqueue ticking_env flat_float_str 1 ?s1)"
  have s2: "enqueue_each ticking_env flat_float_str [5, 1] ?s0 = ?s2"
    by simp
  have ok0: "queue_ok (task_queue ?s0)"
    using C9_lowest_priority_first [of ?s0 ticking_env flat_float_str 5]
    by (simp add: new_system_def)
  have ok1: "queue_ok (task_queue ?s1)"
    using C9_lowest_priority_first [of ?s0 ticking_env flat_float_str 5] ok0 by blast
  have ok2: "queue_ok (task_queue ?s2)"
    using C9_lowest_priority_first [of ?s1 ticking_env flat_float_str 1] ok1 by blast
  have d: "map_option priority (fst (dequeue ?s2)) = Some 1"
    by (simp add: eval_nat_numeral enqueue_def dequeue_def heappush_def heappop_def
        siftdown_def siftup_def siftdown_loop.simps siftup_loop.simps tuple_lt_def task_lt_def
        queue_full_def now_def random_draw_def Let_def new_system_def default_config_def
        ticking_env_def still_env_def flat_float_str_def)
  then obtain task where t: "fst (dequeue ?s2) = Some task" "priority task = 1"
    by auto
  from C9_lowest_priority_first [of ?s2 ticking_env flat_float_str 0] ok2 t
  have "\<forall>(p, t) \<in> set (task_queue ?s2). 1 \<le> priority t"
    by simp
  then have "list_all (\<lambda>(p, t). 1 \<le> priority t) (task_queue ?s2)"
    by (simp add: list_all_iff)
  with d show ?thesis unfolding s2 by blast
qed

end
